theory Spec2Isabelle
  imports Main
begin

section \<open>Paint-shop sequencing: the data\<close>

text \<open>
  A sequence is a list of car types (Python strings). The two colours are the dictionary
  keys \<^verbatim>\<open>"white"\<close> and \<^verbatim>\<open>"black"\<close> of the heuristic; the optimisation model
  encodes them as the levels 0 and 1 of a binary variable.
\<close>

type_synonym car_type = string

datatype color = White | Black

datatype error = KeyError

text \<open>
  The state of one run of a heuristic cell: the module-level names \<^verbatim>\<open>changes\<close>,
  \<^verbatim>\<open>colors\<close>, \<^verbatim>\<open>result\<close> and \<^verbatim>\<open>current_color\<close>. The dictionary
  \<^verbatim>\<open>colors\<close> has exactly the two colour keys, so it is a function on \<open>color\<close>; its
  values are sets of car types in the binary cell and dictionaries of remaining demand in
  the multi-vehicle cell.
\<close>

record 'd heuristic_state =
  changes :: int
  colors :: "color \<Rightarrow> 'd"
  result :: "color list"
  current_color :: color

text \<open>The colour change of both cells: white becomes black, anything else white.\<close>

definition change_color :: "color \<Rightarrow> color" where
  "change_color c = (if c = White then Black else White)"

section \<open>The binary heuristic\<close>

text \<open>
  \<^verbatim>\<open>
  def paint_car(colors_dict, result_list, color, car_type):
      colors_dict[color].add(car_type)
      result_list.append(color)
  \<close>
\<close>

definition paint_car ::
  "(color \<Rightarrow> car_type set) \<Rightarrow> color list \<Rightarrow> color \<Rightarrow> car_type
    \<Rightarrow> (color \<Rightarrow> car_type set) \<times> color list" where
  "paint_car colors_dict result_list c car =
     (colors_dict(c := insert car (colors_dict c)), result_list @ [c])"

text \<open>
  One iteration of \<^verbatim>\<open>for car in sequence\<close>:
  \<^verbatim>\<open>
      if car not in colors[current_color]:
          paint_car(colors, result, current_color, car)
      else:
          changes += 1
          if current_color == "white": current_color = "black"
          else: current_color = "white"
          paint_car(colors, result, current_color, car)
  \<close>
\<close>

definition binary_step ::
  "car_type \<Rightarrow> car_type set heuristic_state \<Rightarrow> car_type set heuristic_state" where
  "binary_step car s =
     (if car \<notin> colors s (current_color s) then
        (case paint_car (colors s) (result s) (current_color s) car of
           (cd, rl) \<Rightarrow> s\<lparr>colors := cd, result := rl\<rparr>)
      else
        (case paint_car (colors s) (result s) (change_color (current_color s)) car of
           (cd, rl) \<Rightarrow>
             s\<lparr>changes := changes s + 1, colors := cd, result := rl,
               current_color := change_color (current_color s)\<rparr>))"

definition binary_init :: "car_type set heuristic_state" where
  "binary_init =
     \<lparr>changes = 0, colors = (\<lambda>c. {}), result = [], current_color = White\<rparr>"

definition heuristic_binary :: "car_type list \<Rightarrow> car_type set heuristic_state" where
  "heuristic_binary sequence = fold binary_step sequence binary_init"

section \<open>The multi-vehicle heuristic\<close>

text \<open>
  \<^verbatim>\<open>
  def paint_car(colors_dict, result_list, color, car_type):
      colors_dict[color][car_type] -= 1
      result_list.append(color)
  \<close>
  The second cell redefines \<^verbatim>\<open>paint_car\<close>; the model calls it \<open>paint_car_demand\<close>.
  Reading a car type that is not a key of the demand dictionary raises \<^verbatim>\<open>KeyError\<close>.
\<close>

definition paint_car_demand ::
  "(color \<Rightarrow> car_type \<rightharpoonup> int) \<Rightarrow> color list \<Rightarrow> color \<Rightarrow> car_type
    \<Rightarrow> error + ((color \<Rightarrow> car_type \<rightharpoonup> int) \<times> color list)" where
  "paint_car_demand colors_dict result_list c car =
     (case colors_dict c car of
        None \<Rightarrow> Inl KeyError
      | Some k \<Rightarrow> Inr (colors_dict(c := (colors_dict c)(car \<mapsto> k - 1)), result_list @ [c]))"

text \<open>
  One iteration of the loop of the multi-vehicle cell:
  \<^verbatim>\<open>
      if colors[current_color][car] > 0:
          paint_car(colors, result, current_color, car)
      else:
          changes += 1
          if current_color == "white": current_color = "black"
          else: current_color = "white"
          paint_car(colors, result, current_color, car)
  \<close>
\<close>

definition multi_step ::
  "car_type \<Rightarrow> (car_type \<rightharpoonup> int) heuristic_state
    \<Rightarrow> error + (car_type \<rightharpoonup> int) heuristic_state" where
  "multi_step car s =
     (case colors s (current_color s) car of
        None \<Rightarrow> Inl KeyError
      | Some k \<Rightarrow>
          if k > 0 then
            (case paint_car_demand (colors s) (result s) (current_color s) car of
               Inl e \<Rightarrow> Inl e
             | Inr (cd, rl) \<Rightarrow> Inr (s\<lparr>colors := cd, result := rl\<rparr>))
          else
            (case paint_car_demand (colors s) (result s)
                    (change_color (current_color s)) car of
               Inl e \<Rightarrow> Inl e
             | Inr (cd, rl) \<Rightarrow>
                 Inr (s\<lparr>changes := changes s + 1, colors := cd, result := rl,
                        current_color := change_color (current_color s)\<rparr>)))"

fun multi_loop ::
  "car_type list \<Rightarrow> (car_type \<rightharpoonup> int) heuristic_state
    \<Rightarrow> error + (car_type \<rightharpoonup> int) heuristic_state" where
  "multi_loop [] s = Inr s"
| "multi_loop (car # rest) s =
     (case multi_step car s of Inl e \<Rightarrow> Inl e | Inr s' \<Rightarrow> multi_loop rest s')"

text \<open>
  \<^verbatim>\<open>colors = {"white": dict(demand_white), "black": dict(demand_black)}\<close>, no changes,
  an empty result, and white as the first colour.
\<close>

definition multi_init ::
  "(car_type \<rightharpoonup> int) \<Rightarrow> (car_type \<rightharpoonup> int) \<Rightarrow> (car_type \<rightharpoonup> int) heuristic_state" where
  "multi_init demand_white demand_black =
     \<lparr>changes = 0,
      colors = (\<lambda>c. case c of White \<Rightarrow> demand_white | Black \<Rightarrow> demand_black),
      result = [], current_color = White\<rparr>"

definition heuristic_multi ::
  "car_type list \<Rightarrow> (car_type \<rightharpoonup> int) \<Rightarrow> (car_type \<rightharpoonup> int)
    \<Rightarrow> error + (car_type \<rightharpoonup> int) heuristic_state" where
  "heuristic_multi sequence demand_white demand_black =
     multi_loop sequence (multi_init demand_white demand_black)"

section \<open>Counting\<close>

text \<open>The number of positions of type \<open>t\<close> that a colouring labels with colour \<open>c\<close>.\<close>

definition painted :: "car_type list \<Rightarrow> color list \<Rightarrow> color \<Rightarrow> car_type \<Rightarrow> nat" where
  "painted sequence coloring c t =
     length (filter (\<lambda>(car, col). car = t \<and> col = c) (zip sequence coloring))"

text \<open>
  The switch count of an assignment as the specification words it: the positions \<open>p\<close> in
  \<open>1..n-1\<close> whose label differs from the label at \<open>p - 1\<close>.
\<close>

definition switches :: "'a list \<Rightarrow> nat" where
  "switches a = length (filter (\<lambda>p. a ! p \<noteq> a ! (p - 1)) [1..<length a])"

section \<open>Decimal labels\<close>

text \<open>
  Python writes an index in decimal, in the labels of the GAMS sets and in the keys of the
  coefficient dictionary: the digit \<open>d\<close> is the character with code \<open>48 + d\<close>.
\<close>

definition digit_char :: "nat \<Rightarrow> char" where
  "digit_char d = char_of (48 + d)"

fun str_nat :: "nat \<Rightarrow> string" where
  "str_nat n = (if n < 10 then [digit_char n] else str_nat (n div 10) @ [digit_char (n mod 10)])"

section \<open>The exact formulation\<close>

text \<open>
  The records of the set \<^verbatim>\<open>IJ\<close>:
  \<^verbatim>\<open>[(i + 1, sequence[i]) for i in range(len(sequence))]\<close>.
  Domain forwarding makes the positions \<open>1..n\<close> the elements of the set \<^verbatim>\<open>i\<close> and
  the car types that occur the elements of the set \<^verbatim>\<open>j\<close>. In GAMS every element is
  a label, a string: the label of the position \<open>k\<close> is \<open>str_nat k\<close>, and a car type is
  its own label.
\<close>

definition IJ :: "car_type list \<Rightarrow> (nat \<times> car_type) list" where
  "IJ sequence = map (\<lambda>i. (i + 1, sequence ! i)) [0..<length sequence]"

text \<open>
  GAMS keeps one list of all labels, the universe, in the order in which the labels first
  enter it, and every set is ordered as the universe is. The records of \<^verbatim>\<open>IJ\<close>
  enter row by row, the position label of a record before its car type, so a car type
  that is written like a later position (the car type \<^verbatim>\<open>"3"\<close> at the first position)
  enters the universe before that position does. \<open>uels\<close> is the universe and \<open>set_i\<close>
  the positions in the order GAMS gives the set \<^verbatim>\<open>i\<close>. Labels are compared as they
  are written.
\<close>

definition uels :: "car_type list \<Rightarrow> string list" where
  "uels sequence =
     rev (remdups (rev (concat (map (\<lambda>(i, j). [str_nat i, j]) (IJ sequence)))))"

definition set_i :: "car_type list \<Rightarrow> nat list" where
  "set_i sequence =
     concat (map (\<lambda>u. filter (\<lambda>i. str_nat i = u) (map fst (IJ sequence))) (uels sequence))"

text \<open>
  The left-hand side \<^verbatim>\<open>gp.Sum(IJ[i, j], X[i])\<close> of both equations, for a level
  \<open>X i\<close> of every position, and the equation
  \<^verbatim>\<open>BlackOnce[j] = gp.Sum(IJ[i, j], X[i]) == 1\<close>.
\<close>

definition black_sum :: "(nat \<times> car_type) list \<Rightarrow> (nat \<Rightarrow> int) \<Rightarrow> car_type \<Rightarrow> int" where
  "black_sum ij X j = sum_list (map (\<lambda>(i, j'). X i) (filter (\<lambda>(i, j'). j' = j) ij))"

definition BlackOnce :: "(nat \<times> car_type) list \<Rightarrow> (nat \<Rightarrow> int) \<Rightarrow> car_type \<Rightarrow> bool" where
  "BlackOnce ij X j = (black_sum ij X j = 1)"

text \<open>
  \<^verbatim>\<open>obj = gp.Sum(i.where[gp.Ord(i) < gp.Card(i)], sqr(X[i] - X[i + 1]))\<close>:
  \<^verbatim>\<open>Ord(i)\<close> is the rank \<open>k\<close> of an element in the ordered set \<^verbatim>\<open>i\<close>, counted
  from 1, \<^verbatim>\<open>Card(i)\<close> is the number of its elements, and \<^verbatim>\<open>X[i + 1]\<close> is the level
  of the element that follows in that order. The element of rank \<open>k\<close> is
  \<open>set_i sequence ! (k - 1)\<close>.
\<close>

definition obj :: "car_type list \<Rightarrow> (nat \<Rightarrow> int) \<Rightarrow> int" where
  "obj sequence X =
     sum_list (map (\<lambda>k. (X (set_i sequence ! (k - 1)) - X (set_i sequence ! k))\<^sup>2)
       (filter (\<lambda>k. k < length (set_i sequence)) [1..<length (set_i sequence) + 1]))"

text \<open>
  An assignment as a list of levels indexed from 0 by the place in the sequence: the
  position \<open>i\<close> has the entry \<open>i - 1\<close>. A colour is the level 1 when it is black and 0
  when it is white.
\<close>

definition levels :: "int list \<Rightarrow> nat \<Rightarrow> int" where
  "levels a i = a ! (i - 1)"

definition level_of :: "color \<Rightarrow> int" where
  "level_of c = (if c = Black then 1 else 0)"

text \<open>
  The model \<^verbatim>\<open>paintshop\<close> (equations \<^verbatim>\<open>[BlackOnce]\<close>, sense \<^verbatim>\<open>MIN\<close>,
  objective \<^verbatim>\<open>obj\<close>, binary \<^verbatim>\<open>X\<close>): an assignment of levels is feasible when
  every car type of the sequence meets its equation, and the optimum is the least objective
  over the feasible binary assignments, found here by enumeration (\<open>None\<close> when no
  assignment is feasible).
\<close>

definition paintshop_feasible :: "car_type list \<Rightarrow> int list \<Rightarrow> bool" where
  "paintshop_feasible sequence a =
     list_all (BlackOnce (IJ sequence) (levels a)) (remdups sequence)"

definition paintshop_optimum :: "car_type list \<Rightarrow> int option" where
  "paintshop_optimum sequence =
     (case map (\<lambda>a. obj sequence (levels a))
             (filter (paintshop_feasible sequence)
                (List.n_lists (length sequence) [0, 1])) of
        [] \<Rightarrow> None
      | v # vs \<Rightarrow> Some (fold min vs v))"

section \<open>The demand of the multi-vehicle instance\<close>

text \<open>
  \<^verbatim>\<open>
  demand_white = {t: random.randint(0, sequence.count(t)) for t in types}
  demand_black = {t: sequence.count(t) - demand_white[t] for t in types}
  \<close>
  The black demand is computed from the white one, for the types of \<^verbatim>\<open>types\<close> (a
  Python set, here a list of its elements); a type without a white demand raises
  \<^verbatim>\<open>KeyError\<close>. \<open>demand_at\<close> reads the result: the exception, or the entry of a type
  in the dictionary.
\<close>

definition demand_black ::
  "car_type list \<Rightarrow> car_type list \<Rightarrow> (car_type \<rightharpoonup> int) \<Rightarrow> error + (car_type \<rightharpoonup> int)" where
  "demand_black sequence types dw =
     (if list_all (\<lambda>t. dw t \<noteq> None) types then
        Inr (\<lambda>t. if t \<in> set types
                 then map_option (\<lambda>w. int (count_list sequence t) - w) (dw t)
                 else None)
      else Inl KeyError)"


text \<open>
  A demand in range for a sequence, as the two dictionaries the heuristic reads: the black
  count of every type of the sequence lies between 0 and the number of its occurrences,
  and the white count is the rest. The demand is feasible when, besides, both dictionaries
  have exactly the types of the sequence as keys.
\<close>

definition demand_in_range ::
  "car_type list \<Rightarrow> (car_type \<rightharpoonup> int) \<Rightarrow> (car_type \<rightharpoonup> int) \<Rightarrow> bool" where
  "demand_in_range sequence dw db \<longleftrightarrow>
     (\<forall>t \<in> set sequence. \<exists>b. db t = Some b \<and> 0 \<le> b \<and> b \<le> int (count_list sequence t) \<and>
        dw t = Some (int (count_list sequence t) - b))"

definition feasible_demand ::
  "car_type list \<Rightarrow> (car_type \<rightharpoonup> int) \<Rightarrow> (car_type \<rightharpoonup> int) \<Rightarrow> bool" where
  "feasible_demand sequence dw db \<longleftrightarrow>
     dom dw = set sequence \<and> dom db = set sequence \<and> demand_in_range sequence dw db"

text \<open>
  A colouring meets a demand when it paints, of every type of the sequence, as many cars
  in each colour as the demand asks.
\<close>

definition meets_demand ::
  "car_type list \<Rightarrow> color list \<Rightarrow> (car_type \<rightharpoonup> int) \<Rightarrow> (car_type \<rightharpoonup> int) \<Rightarrow> bool" where
  "meets_demand sequence coloring dw db \<longleftrightarrow>
     (\<forall>t \<in> set sequence.
        dw t = Some (int (painted sequence coloring White t)) \<and>
        db t = Some (int (painted sequence coloring Black t)))"

text \<open>
  What a run of the multi-vehicle cell shows: the colouring and the number of changes it
  prints (or the exception), and the remaining capacity left in \<^verbatim>\<open>colors\<close>.
\<close>

definition printed :: "error + 'd heuristic_state \<Rightarrow> error + color list \<times> int" where
  "printed r = (case r of Inl e \<Rightarrow> Inl e | Inr s \<Rightarrow> Inr (result s, changes s))"

definition remaining ::
  "error + (car_type \<rightharpoonup> int) heuristic_state \<Rightarrow> color \<Rightarrow> car_type \<Rightarrow> int option" where
  "remaining r c t = (case r of Inl e \<Rightarrow> None | Inr s \<Rightarrow> colors s c t)"

section \<open>The coefficient dictionary of the QUBO\<close>

text \<open>
  \<^verbatim>\<open>np.triu_indices(n)\<close>: the index pairs of the upper triangle of an \<open>n \<times> n\<close>
  matrix, the diagonal included, row by row; the pairs are \<^verbatim>\<open>zip(rows_idx, cols_idx)\<close>.
\<close>

definition triu_indices :: "nat \<Rightarrow> (nat \<times> nat) list" where
  "triu_indices n = concat (map (\<lambda>r. map (\<lambda>c. (r, c)) [r..<n]) [0..<n])"

text \<open>
  \<^verbatim>\<open>
  if r == c: final_qubo[f"({r},)"] = v
  else:      final_qubo[f"({r},{c})"] = v
  \<close>
\<close>

definition qubo_key :: "nat \<Rightarrow> nat \<Rightarrow> string" where
  "qubo_key r c =
     (if r = c then ''('' @ str_nat r @ '',)''
      else ''('' @ str_nat r @ '','' @ str_nat c @ '')'')"

text \<open>
  The assignments of the loop in their order, for a coefficient matrix \<open>qubo_matrix\<close> of
  shape \<open>n \<times> n\<close> (the matrix comes from the QUBO library and is a parameter here), and the
  dictionary they leave.
\<close>

definition qubo_items :: "(nat \<Rightarrow> nat \<Rightarrow> 'v) \<Rightarrow> nat \<Rightarrow> (string \<times> 'v) list" where
  "qubo_items qubo_matrix n =
     map (\<lambda>(r, c). (qubo_key r c, qubo_matrix r c)) (triu_indices n)"

definition final_qubo :: "(nat \<Rightarrow> nat \<Rightarrow> 'v) \<Rightarrow> nat \<Rightarrow> (string \<rightharpoonup> 'v)" where
  "final_qubo qubo_matrix n =
     fold (\<lambda>(k, v) d. d(k \<mapsto> v)) (qubo_items qubo_matrix n) Map.empty"

section \<open>Basic facts\<close>

declare str_nat.simps [simp del]

lemma change_color_simps: "change_color White = Black" "change_color Black = White"
  by (simp_all add: change_color_def)

lemma filter_where_upt: "filter (\<lambda>i. i < n) [1..<n + 1] = [1..<n]"
proof (cases n)
  case 0
  then show ?thesis by simp
next
  case (Suc m)
  then show ?thesis by simp
qed

lemma length_filter_sum_list:
  "int (length (filter P xs)) = (\<Sum>x\<leftarrow>xs. if P x then 1 else 0)"
  by (induction xs) simp_all

lemma switches_sum:
  "int (switches a) = (\<Sum>p = 1..<length a. if a ! p \<noteq> a ! (p - 1) then 1 else 0)"
  unfolding switches_def length_filter_sum_list
  by (simp add: interv_sum_list_conv_sum_set_nat)

section \<open>Decimal labels and the order of the set of positions\<close>

lemma str_nat_nonempty: "str_nat n \<noteq> []" "[] \<noteq> str_nat n"
  by (subst str_nat.simps, simp)+

lemma digit_char_code: "d < 10 \<Longrightarrow> (of_char (digit_char d) :: nat) = 48 + d"
  by (simp add: digit_char_def)

lemma digit_char_inj:
  assumes "d < 10" "e < 10" "digit_char d = digit_char e"
  shows "d = e"
proof -
  from assms(3) have "(of_char (digit_char d) :: nat) = of_char (digit_char e)" by simp
  with assms(1,2) show ?thesis by (simp add: digit_char_code)
qed

lemma digit_char_not_comma:
  assumes "d < 10"
  shows "digit_char d \<noteq> CHR '',''" "CHR '','' \<noteq> digit_char d"
proof -
  show "digit_char d \<noteq> CHR '',''"
  proof
    assume "digit_char d = CHR '',''"
    then have "(of_char (digit_char d) :: nat) = of_char CHR '',''" by simp
    with assms show False by (simp add: digit_char_code)
  qed
  then show "CHR '','' \<noteq> digit_char d" by (rule not_sym)
qed

lemma str_nat_no_comma: "CHR '','' \<notin> set (str_nat n)"
proof (induction n rule: str_nat.induct)
  case (1 n)
  show ?case
  proof (cases "n < 10")
    case True
    then show ?thesis by (subst str_nat.simps) (simp add: digit_char_not_comma)
  next
    case False
    with 1 have "CHR '','' \<notin> set (str_nat (n div 10))" by simp
    with False show ?thesis by (subst str_nat.simps) (simp add: digit_char_not_comma)
  qed
qed

lemma str_nat_inj: "str_nat n = str_nat m \<Longrightarrow> n = m"
proof (induction n arbitrary: m rule: str_nat.induct)
  case (1 n)
  show ?case
  proof (cases "n < 10")
    case n: True
    show ?thesis
    proof (cases "m < 10")
      case True
      with n "1.prems" show ?thesis
        by (simp add: str_nat.simps [of n] str_nat.simps [of m] digit_char_inj)
    next
      case False
      with n "1.prems" show ?thesis
        by (simp add: str_nat.simps [of n] str_nat.simps [of m] str_nat_nonempty)
    qed
  next
    case n: False
    show ?thesis
    proof (cases "m < 10")
      case True
      with n "1.prems" show ?thesis
        by (simp add: str_nat.simps [of n] str_nat.simps [of m] str_nat_nonempty)
    next
      case False
      with n "1.prems" have "str_nat (n div 10) = str_nat (m div 10)"
        "digit_char (n mod 10) = digit_char (m mod 10)"
        by (simp_all add: str_nat.simps [of n] str_nat.simps [of m])
      with "1.IH" [OF n] have "n div 10 = m div 10" "n mod 10 = m mod 10"
        by (simp_all add: digit_char_inj)
      then show ?thesis by (metis div_mult_mod_eq)
    qed
  qed
qed

text \<open>
  When no car type is written like a position of the sequence, the positions enter the
  universe in their numeric order, and the objective is the sum over the adjacent pairs
  of positions.
\<close>

lemma positions_IJ: "map fst (IJ sequence) = [1..<length sequence + 1]"
proof -
  have "map fst (IJ sequence) = map Suc [0..<length sequence]"
    by (simp add: IJ_def comp_def)
  then show ?thesis by (simp add: map_Suc_upt)
qed

lemma filter_eq_distinct:
  "distinct xs \<Longrightarrow> filter (\<lambda>x. x = a) xs = (if a \<in> set xs then [a] else [])"
  by (induction xs) auto

lemma position_of_label:
  "filter (\<lambda>i. str_nat i = str_nat k) [1..<n + 1] = (if 1 \<le> k \<and> k \<le> n then [k] else [])"
proof -
  have "filter (\<lambda>i. str_nat i = str_nat k) [1..<n + 1] = filter (\<lambda>i. i = k) [1..<n + 1]"
    by (rule filter_cong) (auto dest: str_nat_inj)
  then show ?thesis by (auto simp: filter_eq_distinct)
qed

lemma concat_map_filter_nil:
  assumes "\<And>x. \<not> P x \<Longrightarrow> f x = []"
  shows "concat (map f xs) = concat (map f (filter P xs))"
  by (induction xs) (auto simp: assms)

lemma labels_of_records:
  assumes "\<And>t. t \<in> set ts \<Longrightarrow> \<not> P t" "\<And>k. k \<in> set ks \<Longrightarrow> P (str_nat k)"
    and "length ts = length ks"
  shows "filter P (concat (map (\<lambda>(i, j). [str_nat i, j]) (zip ks ts))) = map str_nat ks"
proof -
  from assms(3) have "length ks = length ts" by simp
  then show ?thesis using assms(1,2)
    by (induction ks ts rule: list_induct2) auto
qed

lemma IJ_zip: "IJ sequence = zip [1..<length sequence + 1] sequence"
proof (rule nth_equalityI)
  show "length (IJ sequence) = length (zip [1..<length sequence + 1] sequence)"
    by (simp add: IJ_def del: upt_Suc)
next
  fix i assume "i < length (IJ sequence)"
  then have "i < length sequence" by (simp add: IJ_def)
  then show "IJ sequence ! i = zip [1..<length sequence + 1] sequence ! i"
    by (simp add: IJ_def nth_upt del: upt_Suc)
qed

lemma set_i_ordered:
  assumes "\<forall>k \<in> {1..length sequence}. str_nat k \<notin> set sequence"
  shows "set_i sequence = [1..<length sequence + 1]"
proof -
  define n where "n = length sequence"
  define P where "P u \<longleftrightarrow> u \<in> str_nat ` {1..n}" for u
  define f where "f u = filter (\<lambda>i. str_nat i = u) [1..<n + 1]" for u
  define flat where "flat = concat (map (\<lambda>(i, j). [str_nat i, j]) (IJ sequence))"
  have fnil: "f u = []" if "\<not> P u" for u
    using that unfolding f_def P_def by (auto simp: filter_empty_conv)
  have "filter P flat = map str_nat [1..<n + 1]"
    unfolding flat_def IJ_zip n_def [symmetric]
  proof (rule labels_of_records)
    fix t assume "t \<in> set sequence"
    with assms show "\<not> P t" unfolding P_def n_def by auto
  next
    fix k assume "k \<in> set [1..<n + 1]"
    then show "P (str_nat k)" unfolding P_def by auto
  next
    show "length sequence = length [1..<n + 1]" by (simp add: n_def del: upt_Suc)
  qed
  moreover have "distinct (map str_nat [1..<n + 1])"
    by (auto simp: distinct_map inj_on_def dest: str_nat_inj)
  ultimately have "filter P (uels sequence) = map str_nat [1..<n + 1]"
    unfolding uels_def flat_def [symmetric]
    by (simp add: rev_filter [symmetric] remdups_filter [symmetric] distinct_remdups_id)
  moreover have "set_i sequence = concat (map f (filter P (uels sequence)))"
    unfolding set_i_def positions_IJ n_def [symmetric] f_def [symmetric]
    using fnil by (rule concat_map_filter_nil)
  ultimately have "set_i sequence = concat (map f (map str_nat [1..<n + 1]))" by simp
  also have "\<dots> = concat (map (\<lambda>k. [k]) [1..<n + 1])"
    unfolding map_map comp_def
  proof (rule arg_cong [where f = concat], rule map_cong [OF refl])
    fix k assume "k \<in> set [1..<n + 1]"
    then have "1 \<le> k \<and> k \<le> n" by auto
    then show "f (str_nat k) = [k]"
      unfolding f_def position_of_label by simp
  qed
  also have "\<dots> = [1..<n + 1]" by (induction n) simp_all
  finally show ?thesis by (simp add: n_def)
qed

lemma obj_ordered_list:
  assumes "set_i sequence = [1..<n + 1]"
  shows "obj sequence X = (\<Sum>k\<leftarrow>[1..<n]. (X k - X (k + 1))\<^sup>2)"
proof -
  have "obj sequence X = (\<Sum>k\<leftarrow>[1..<n]. (X ([1..<n + 1] ! (k - 1)) - X ([1..<n + 1] ! k))\<^sup>2)"
    unfolding obj_def assms by (simp add: filter_where_upt)
  also have "\<dots> = (\<Sum>k\<leftarrow>[1..<n]. (X k - X (k + 1))\<^sup>2)"
    by (rule arg_cong [where f = sum_list], rule map_cong [OF refl])
       (auto simp: nth_upt simp del: upt_Suc)
  finally show ?thesis .
qed

lemma obj_ordered:
  assumes "set_i sequence = [1..<n + 1]"
  shows "obj sequence X = (\<Sum>k = 1..<n. (X k - X (k + 1))\<^sup>2)"
  unfolding obj_ordered_list [OF assms] by (simp add: interv_sum_list_conv_sum_set_nat)

section \<open>The objective and the switch count\<close>

text \<open>
  For a sequence none of whose car types is written like one of its positions, the
  objective of a binary assignment is its switch count.
\<close>

lemma obj_counts_switches:
  assumes "\<forall>k \<in> {1..length sequence}. str_nat k \<notin> set sequence"
    and "length a = length sequence" "set a \<subseteq> {0, 1}"
  shows "obj sequence (levels a) = int (switches a)"
proof -
  have "(levels a k - levels a (k + 1))\<^sup>2 = (if a ! k \<noteq> a ! (k - 1) then 1 else 0)"
    if "k \<in> {1..<length a}" for k
  proof -
    from that have "k - 1 < length a" "k < length a" by auto
    then have "a ! (k - 1) \<in> set a" "a ! k \<in> set a" by (simp_all only: nth_mem)
    with assms(3) have "a ! (k - 1) \<in> {0, 1}" "a ! k \<in> {0, 1}" by blast+
    then show ?thesis unfolding levels_def by auto
  qed
  then show ?thesis
    unfolding obj_ordered [OF set_i_ordered [OF assms(1)]] switches_sum assms(2) [symmetric]
    by (intro sum.cong) simp_all
qed

text \<open>
  Claim C4, where the code departs from it. The claim says that the objective of the
  exact formulation is the switch count of every binary assignment. For the sequence of
  the car types \<^verbatim>\<open>"3"\<close>, \<^verbatim>\<open>"4"\<close>, \<^verbatim>\<open>"3"\<close>, \<^verbatim>\<open>"4"\<close> the car type of the
  first position enters the universe before the third position, the set of positions is
  ordered 1, 3, 2, 4, and the code's objective sums over the pairs (1, 3), (3, 2) and
  (2, 4): for the levels 0, 0, 1, 1 it is 3, and the assignment has one switch.
\<close>

theorem obj_follows_label_order:
  "set_i [''3'', ''4'', ''3'', ''4''] = [1, 3, 2, 4] \<and>
   obj [''3'', ''4'', ''3'', ''4''] (levels [0, 0, 1, 1]) = 3 \<and>
   switches [0, 0, 1, 1 :: int] = 1"
  by code_simp

section \<open>Counting painted cars and switches\<close>

lemma color_cases: "c \<noteq> White \<longleftrightarrow> c = Black"
  by (cases c) simp_all

lemma painted_Nil [simp]: "painted [] col c t = 0"
  by (simp add: painted_def)

lemma painted_snoc:
  "length col = length xs \<Longrightarrow>
   painted (xs @ [x]) (col @ [c']) c t = painted xs col c t + (if x = t \<and> c' = c then 1 else 0)"
  by (simp add: painted_def)

lemma painted_total:
  assumes "length col = length xs"
  shows "painted xs col White t + painted xs col Black t = count_list xs t"
proof -
  from assms have "length xs = length col" by simp
  then show ?thesis
  proof (induction xs col rule: list_induct2)
    case Nil
    then show ?case by simp
  next
    case (Cons x xs c col)
    then show ?case by (cases c) (auto simp: painted_def)
  qed
qed

lemma switches_snoc:
  assumes "ys \<noteq> []"
  shows "switches (ys @ [c]) = switches ys + (if c \<noteq> last ys then 1 else 0)"
proof -
  have len: "[1..<length (ys @ [c])] = [1..<length ys] @ [length ys]"
    using assms by (simp add: Suc_le_eq)
  have old: "filter (\<lambda>p. (ys @ [c]) ! p \<noteq> (ys @ [c]) ! (p - 1)) [1..<length ys]
      = filter (\<lambda>p. ys ! p \<noteq> ys ! (p - 1)) [1..<length ys]"
    by (rule filter_cong) (auto simp: nth_append)
  have new: "(ys @ [c]) ! (length ys - Suc 0) = last ys"
    using assms by (simp add: nth_append last_conv_nth)
  show ?thesis
    unfolding switches_def len filter_append old by (simp add: new)
qed

lemma switches_Cons_Cons:
  "switches (x # y # zs) = (if y \<noteq> x then 1 else 0) + switches (y # zs)"
proof (induction zs rule: rev_induct)
  case Nil
  have "switches ([x] @ [y]) = switches [x] + (if y \<noteq> last [x] then 1 else 0)"
    by (rule switches_snoc) simp
  then show ?case by (simp add: switches_def)
next
  case (snoc z zs)
  have a: "switches ((x # y # zs) @ [z]) = switches (x # y # zs) + (if z \<noteq> last (x # y # zs) then 1 else 0)"
    by (rule switches_snoc) simp
  have b: "switches ((y # zs) @ [z]) = switches (y # zs) + (if z \<noteq> last (y # zs) then 1 else 0)"
    by (rule switches_snoc) simp
  from a b snoc show ?case by simp
qed

lemma switches_White_Cons:
  "switches (White # r) = switches r + (if r \<noteq> [] \<and> hd r \<noteq> White then 1 else 0)"
  by (cases r) (simp_all add: switches_Cons_Cons, simp add: switches_def)

lemma binary_step_fields:
  "result (binary_step x s) = result s @ [current_color (binary_step x s)]"
  "current_color (binary_step x s) =
     (if x \<notin> colors s (current_color s) then current_color s else change_color (current_color s))"
  "colors (binary_step x s) =
     (colors s)(current_color (binary_step x s) := insert x (colors s (current_color (binary_step x s))))"
  "changes (binary_step x s) = changes s + (if x \<notin> colors s (current_color s) then 0 else 1)"
  by (simp_all add: binary_step_def paint_car_def)

lemma fold_snoc: "fold f (xs @ [x]) s = f x (fold f xs s)"
  by simp

lemma binary_invariant:
  assumes "\<forall>t. count_list xs t \<le> 2"
  shows "length (result (fold binary_step xs binary_init)) = length xs \<and>
    (\<forall>c t. painted xs (result (fold binary_step xs binary_init)) c t =
        (if t \<in> colors (fold binary_step xs binary_init) c then 1 else 0))"
  using assms
proof (induction xs rule: rev_induct)
  case Nil
  then show ?case by (simp add: binary_init_def)
next
  case (snoc x xs)
  define s where "s = fold binary_step xs binary_init"
  have small: "\<forall>t. count_list xs t \<le> 2"
  proof
    fix t
    from snoc.prems have "count_list (xs @ [x]) t \<le> 2" by blast
    then show "count_list xs t \<le> 2" by (simp split: if_splits)
  qed
  from snoc.IH [OF small] have len: "length (result s) = length xs"
    and cnt: "\<And>c t. painted xs (result s) c t = (if t \<in> colors s c then 1 else 0)"
    unfolding s_def by simp_all
  define c' where "c' = current_color (binary_step x s)"
  have fresh: "x \<notin> colors s c'"
  proof (cases "x \<in> colors s (current_color s)")
    case False
    then show ?thesis by (simp add: c'_def binary_step_fields)
  next
    case True
    then have c'_eq: "c' = change_color (current_color s)"
      by (simp add: c'_def binary_step_fields)
    show ?thesis
    proof
      assume "x \<in> colors s c'"
      with True cnt have "painted xs (result s) (current_color s) x = 1"
        "painted xs (result s) c' x = 1" by simp_all
      moreover have "c' \<noteq> current_color s"
        unfolding c'_eq by (cases "current_color s") (simp_all add: change_color_simps)
      ultimately have "painted xs (result s) White x + painted xs (result s) Black x = 2"
        by (cases c'; cases "current_color s") simp_all
      with painted_total [OF len, of x] have "count_list xs x = 2" by simp
      moreover from snoc.prems have "count_list (xs @ [x]) x \<le> 2" by blast
      ultimately show False by simp
    qed
  qed
  have res: "result (binary_step x s) = result s @ [c']"
    and col: "colors (binary_step x s) = (colors s)(c' := insert x (colors s c'))"
    unfolding c'_def by (rule binary_step_fields)+
  have "painted (xs @ [x]) (result (binary_step x s)) c t =
      (if t \<in> colors (binary_step x s) c then 1 else 0)" for c t
    unfolding res col using fresh by (auto simp: painted_snoc [OF len] cnt)
  moreover have "length (result (binary_step x s)) = length (xs @ [x])"
    unfolding res by (simp add: len)
  ultimately show ?case
    unfolding fold_snoc s_def [symmetric] by blast
qed

section \<open>Colourings in the exact formulation\<close>

lemma obj_levels_coloring:
  assumes "set_i sequence = [1..<length sequence + 1]" "length col = length sequence"
  shows "obj sequence (levels (map level_of col)) = int (switches col)"
proof -
  have "(levels (map level_of col) k - levels (map level_of col) (k + 1))\<^sup>2
      = (if col ! k \<noteq> col ! (k - 1) then 1 else 0)"
    if "k \<in> {1..<length col}" for k
  proof -
    from that have "k - 1 < length col" "k < length col" by auto
    then show ?thesis
      unfolding levels_def
      by (cases "col ! k"; cases "col ! (k - 1)") (simp_all add: level_of_def)
  qed
  then show ?thesis
    unfolding obj_ordered [OF assms(1)] switches_sum assms(2) [symmetric]
    by (intro sum.cong) simp_all
qed

lemma zip_upt: "length col = length xs \<Longrightarrow> zip xs col = map (\<lambda>i. (xs ! i, col ! i)) [0..<length xs]"
  by (rule nth_equalityI) simp_all

lemma sum_list_indicator_filter:
  "(\<Sum>i\<leftarrow>filter Q idx. if P i then 1 else 0) = int (length (filter (\<lambda>i. Q i \<and> P i) idx))"
  by (induction idx) simp_all

lemma black_sum_painted:
  assumes "length col = length xs"
  shows "black_sum (IJ xs) (levels (map level_of col)) t = int (painted xs col Black t)"
proof -
  have filt: "filter (\<lambda>(i, j'). j' = t) (IJ xs)
      = map (\<lambda>i. (i + 1, xs ! i)) (filter (\<lambda>i. xs ! i = t) [0..<length xs])"
    by (simp add: IJ_def filter_map comp_def)
  have "black_sum (IJ xs) (levels (map level_of col)) t
      = (\<Sum>i\<leftarrow>filter (\<lambda>i. xs ! i = t) [0..<length xs]. levels (map level_of col) (i + 1))"
    unfolding black_sum_def filt by (simp add: comp_def)
  also have "\<dots> = (\<Sum>i\<leftarrow>filter (\<lambda>i. xs ! i = t) [0..<length xs]. if col ! i = Black then 1 else 0)"
    by (rule arg_cong [where f = sum_list], rule map_cong [OF refl])
       (simp add: levels_def level_of_def assms)
  also have "\<dots> = int (length (filter (\<lambda>i. xs ! i = t \<and> col ! i = Black) [0..<length xs]))"
    by (rule sum_list_indicator_filter)
  also have "\<dots> = int (painted xs col Black t)"
    unfolding painted_def zip_upt [OF assms] by (simp add: filter_map comp_def)
  finally show ?thesis .
qed

lemma optimum_candidates:
  "a \<in> set (List.n_lists n [0, 1 :: int]) \<longleftrightarrow> length a = n \<and> set a \<subseteq> {0, 1}"
  by (auto simp: set_n_lists)

lemma paintshop_optimum_le:
  assumes "length a = length sequence" "set a \<subseteq> {0, 1}" "paintshop_feasible sequence a"
  shows "\<exists>m. paintshop_optimum sequence = Some m \<and> m \<le> obj sequence (levels a)"
proof -
  define vs where "vs = map (\<lambda>a. obj sequence (levels a))
      (filter (paintshop_feasible sequence) (List.n_lists (length sequence) [0, 1]))"
  from assms have mem: "obj sequence (levels a) \<in> set vs"
    unfolding vs_def by (simp add: optimum_candidates image_iff) blast
  then obtain v vs' where vs: "vs = v # vs'" by (cases vs) auto
  have "paintshop_optimum sequence = Some (Min (set vs))"
    unfolding paintshop_optimum_def vs_def [symmetric] vs
    by (simp only: list.case Min.set_eq_fold)
  moreover have "Min (set vs) \<le> obj sequence (levels a)"
    using mem by (intro Min_le) simp_all
  ultimately show ?thesis by blast
qed

lemma paintshop_optimum_eqI:
  assumes "length a0 = length sequence" "set a0 \<subseteq> {0, 1}" "paintshop_feasible sequence a0"
    and "obj sequence (levels a0) = m"
    and "\<And>a. length a = length sequence \<Longrightarrow> set a \<subseteq> {0, 1} \<Longrightarrow> paintshop_feasible sequence a
          \<Longrightarrow> m \<le> obj sequence (levels a)"
  shows "paintshop_optimum sequence = Some m"
proof -
  define vs where "vs = map (\<lambda>a. obj sequence (levels a))
      (filter (paintshop_feasible sequence) (List.n_lists (length sequence) [0, 1]))"
  from assms(1-4) have mem: "m \<in> set vs"
    unfolding vs_def by (simp add: optimum_candidates image_iff) blast
  then obtain v vs' where vs: "vs = v # vs'" by (cases vs) auto
  have low: "m \<le> w" if "w \<in> set vs" for w
    using that assms(5) unfolding vs_def by (auto simp: optimum_candidates)
  have "paintshop_optimum sequence = Some (Min (set vs))"
    unfolding paintshop_optimum_def vs_def [symmetric] vs
    by (simp only: list.case Min.set_eq_fold)
  moreover have "Min (set vs) = m"
    using mem low by (intro Min_eqI) simp_all
  ultimately show ?thesis by simp
qed

lemma optimum_le_switches:
  assumes "set_i sequence = [1..<length sequence + 1]"
    and "length col = length sequence"
    and "\<forall>t \<in> set sequence. painted sequence col Black t = 1"
  shows "\<exists>m. paintshop_optimum sequence = Some m \<and> m \<le> int (switches col)"
proof -
  have "paintshop_feasible sequence (map level_of col)"
    unfolding paintshop_feasible_def list_all_iff BlackOnce_def
    using assms(3) by (simp add: black_sum_painted [OF assms(2)])
  moreover have "length (map level_of col) = length sequence" by (simp add: assms(2))
  moreover have "set (map level_of col) \<subseteq> {0, 1}" by (auto simp: level_of_def)
  ultimately obtain m where "paintshop_optimum sequence = Some m"
    "m \<le> obj sequence (levels (map level_of col))"
    using paintshop_optimum_le by blast
  then show ?thesis by (auto simp: obj_levels_coloring [OF assms(1,2)])
qed

section \<open>The binary heuristic on sequences with every type twice\<close>

lemma binary_length: "length (result (fold binary_step xs binary_init)) = length xs"
  by (induction xs rule: rev_induct) (simp_all add: binary_init_def binary_step_fields(1))

lemma change_color_neq: "change_color c \<noteq> c"
  by (cases c) (simp_all add: change_color_simps)

lemma binary_changes_invariant:
  "current_color (fold binary_step xs binary_init)
      = last (White # result (fold binary_step xs binary_init)) \<and>
   changes (fold binary_step xs binary_init)
      = int (switches (White # result (fold binary_step xs binary_init)))"
proof (induction xs rule: rev_induct)
  case Nil
  then show ?case by (simp add: binary_init_def switches_def)
next
  case (snoc x xs)
  define s where "s = fold binary_step xs binary_init"
  from snoc have cur: "current_color s = last (White # result s)"
    and chg: "changes s = int (switches (White # result s))"
    unfolding s_def by simp_all
  define c' where "c' = current_color (binary_step x s)"
  have res: "result (binary_step x s) = result s @ [c']"
    unfolding c'_def by (rule binary_step_fields)
  have sw: "switches ((White # result s) @ [c']) =
      switches (White # result s) + (if c' \<noteq> last (White # result s) then 1 else 0)"
    by (rule switches_snoc) simp
  have "changes (binary_step x s) = int (switches (White # result (binary_step x s)))"
    unfolding res using sw cur chg
    by (simp add: binary_step_fields(4) c'_def binary_step_fields(2) change_color_neq)
  moreover have "current_color (binary_step x s) = last (White # result (binary_step x s))"
    unfolding res by (simp add: c'_def)
  ultimately show ?case
    unfolding fold_snoc s_def [symmetric] by blast
qed

lemma binary_first_white:
  "xs \<noteq> [] \<Longrightarrow> hd (result (fold binary_step xs binary_init)) = White"
proof (induction xs rule: rev_induct)
  case Nil
  then show ?case by simp
next
  case (snoc x xs)
  show ?case
  proof (cases "xs = []")
    case True
    then show ?thesis by (simp add: binary_step_fields binary_init_def)
  next
    case False
    with binary_length [of xs] have "result (fold binary_step xs binary_init) \<noteq> []" by auto
    with snoc False show ?thesis by (simp add: binary_step_fields(1))
  qed
qed

lemma binary_changes_switches:
  "changes (heuristic_binary sequence) = int (switches (result (heuristic_binary sequence)))"
proof (cases "sequence = []")
  case True
  then show ?thesis by (simp add: heuristic_binary_def binary_init_def switches_def)
next
  case False
  with binary_length [of sequence] have "result (fold binary_step sequence binary_init) \<noteq> []"
    by auto
  with binary_first_white [OF False] binary_changes_invariant [of sequence]
  show ?thesis by (simp add: heuristic_binary_def switches_White_Cons)
qed

lemma binary_once_each:
  assumes "\<forall>t \<in> set sequence. count_list sequence t = 2" "t \<in> set sequence"
  shows "painted sequence (result (heuristic_binary sequence)) White t = 1 \<and>
         painted sequence (result (heuristic_binary sequence)) Black t = 1"
proof -
  define s where "s = fold binary_step sequence binary_init"
  have small: "\<forall>t. count_list sequence t \<le> 2"
  proof
    fix u show "count_list sequence u \<le> 2"
      using assms(1) by (cases "u \<in> set sequence") (simp_all add: count_list_0_iff)
  qed
  from binary_invariant [OF small] have len: "length (result s) = length sequence"
    and cnt: "\<And>c. painted sequence (result s) c t = (if t \<in> colors s c then 1 else 0)"
    unfolding s_def by simp_all
  from painted_total [OF len, of t] assms
  have "painted sequence (result s) White t + painted sequence (result s) Black t = 2" by simp
  moreover have "painted sequence (result s) White t \<le> 1" "painted sequence (result s) Black t \<le> 1"
    by (simp_all add: cnt)
  ultimately show ?thesis unfolding heuristic_binary_def s_def [symmetric] by linarith
qed

text \<open>
  Claim C1, as the code has it. The claim says that the binary heuristic reaches the
  minimum switch count whenever every type occurs exactly twice. It does not: on the
  sequence \<open>C B C A A B\<close>, where every type occurs twice, it changes colour three times
  and its colouring has three switches, while the colouring white, black, black, black,
  white, white paints one car of every type in each colour with two switches.
\<close>

theorem heuristic_binary_not_optimal:
  "map (count_list [''C'', ''B'', ''C'', ''A'', ''A'', ''B''])
      [''C'', ''B'', ''C'', ''A'', ''A'', ''B''] = [2, 2, 2, 2, 2, 2] \<and>
   result (heuristic_binary [''C'', ''B'', ''C'', ''A'', ''A'', ''B''])
      = [White, White, Black, Black, White, Black] \<and>
   changes (heuristic_binary [''C'', ''B'', ''C'', ''A'', ''A'', ''B'']) = 3 \<and>
   switches (result (heuristic_binary [''C'', ''B'', ''C'', ''A'', ''A'', ''B''])) = 3 \<and>
   map (painted [''C'', ''B'', ''C'', ''A'', ''A'', ''B'']
          [White, Black, Black, Black, White, White] White)
      [''C'', ''B'', ''C'', ''A'', ''A'', ''B''] = [1, 1, 1, 1, 1, 1] \<and>
   map (painted [''C'', ''B'', ''C'', ''A'', ''A'', ''B'']
          [White, Black, Black, Black, White, White] Black)
      [''C'', ''B'', ''C'', ''A'', ''A'', ''B''] = [1, 1, 1, 1, 1, 1] \<and>
   switches [White, Black, Black, Black, White, White] = 2"
  by code_simp

text \<open>
  Claim C1, amended. For every sequence in which every type occurs exactly twice, the
  binary heuristic paints one car of every type white and the other black, and the number
  of changes it reports is the switch count of its colouring. So the minimum switch count
  over the colourings that paint one car of every type in each colour is at most the
  heuristic's: among those colourings there is one whose switch count no other of them
  undercuts, and it has at most as many switches as the heuristic's colouring.
\<close>

theorem heuristic_binary_feasible:
  assumes "\<forall>t \<in> set sequence. count_list sequence t = 2"
  shows "length (result (heuristic_binary sequence)) = length sequence \<and>
    (\<forall>t \<in> set sequence.
       painted sequence (result (heuristic_binary sequence)) White t = 1 \<and>
       painted sequence (result (heuristic_binary sequence)) Black t = 1) \<and>
    changes (heuristic_binary sequence) = int (switches (result (heuristic_binary sequence))) \<and>
    (\<exists>col.
       length col = length sequence \<and>
       (\<forall>t \<in> set sequence.
          painted sequence col White t = 1 \<and> painted sequence col Black t = 1) \<and>
       (\<forall>col'.
          length col' = length sequence \<and>
          (\<forall>t \<in> set sequence.
             painted sequence col' White t = 1 \<and> painted sequence col' Black t = 1)
          \<longrightarrow> switches col \<le> switches col') \<and>
       switches col \<le> switches (result (heuristic_binary sequence)))"
proof -
  define r where "r = result (heuristic_binary sequence)"
  define feasible where "feasible col \<longleftrightarrow> length col = length sequence \<and>
    (\<forall>t \<in> set sequence. painted sequence col White t = 1 \<and> painted sequence col Black t = 1)"
    for col
  have len: "length r = length sequence"
    unfolding r_def heuristic_binary_def by (rule binary_length)
  have once: "\<forall>t \<in> set sequence. painted sequence r White t = 1 \<and> painted sequence r Black t = 1"
    unfolding r_def using binary_once_each [OF assms] by blast
  have chg: "changes (heuristic_binary sequence) = int (switches r)"
    unfolding r_def by (rule binary_changes_switches)
  from len once have "feasible r" by (simp add: feasible_def)
  from ex_has_least_nat [of feasible r switches, OF this]
  obtain col where col: "feasible col" "\<forall>col'. feasible col' \<longrightarrow> switches col \<le> switches col'"
    by blast
  with \<open>feasible r\<close> have "switches col \<le> switches r" by blast
  with col have "\<exists>col. feasible col \<and> (\<forall>col'. feasible col' \<longrightarrow> switches col \<le> switches col')
      \<and> switches col \<le> switches r"
    by blast
  then have "\<exists>col.
       length col = length sequence \<and>
       (\<forall>t \<in> set sequence.
          painted sequence col White t = 1 \<and> painted sequence col Black t = 1) \<and>
       (\<forall>col'.
          length col' = length sequence \<and>
          (\<forall>t \<in> set sequence.
             painted sequence col' White t = 1 \<and> painted sequence col' Black t = 1)
          \<longrightarrow> switches col \<le> switches col') \<and>
       switches col \<le> switches r"
    unfolding feasible_def by (simp only: conj_assoc)
  with len once chg show ?thesis unfolding r_def by (intro conjI)
qed

theorem heuristic_binary_feasible_witness:
  "map (count_list [''A'', ''B'', ''A'', ''B'']) [''A'', ''B'', ''A'', ''B''] = [2, 2, 2, 2] \<and>
   result (heuristic_binary [''A'', ''B'', ''A'', ''B'']) = [White, White, Black, Black] \<and>
   painted [''A'', ''B'', ''A'', ''B''] [White, White, Black, Black] Black ''A'' = 1 \<and>
   changes (heuristic_binary [''A'', ''B'', ''A'', ''B'']) = 1 \<and>
   (\<exists>col. length col = 4 \<and> painted [''A'', ''B'', ''A'', ''B''] col Black ''A'' = 1 \<and>
      switches col \<le> 1)"
proof -
  define sq where "sq = [''A'', ''B'', ''A'', ''B'']"
  have h: "\<forall>t \<in> set sq. count_list sq t = 2" by (simp add: sq_def)
  have c: "map (count_list sq) sq = [2, 2, 2, 2]" by (simp add: sq_def)
  have r: "result (heuristic_binary sq) = [White, White, Black, Black]"
    unfolding sq_def by code_simp
  have s: "switches [White, White, Black, Black] = 1" by code_simp
  note t = heuristic_binary_feasible [OF h]
  from t have "\<forall>t \<in> set sq.
       painted sq (result (heuristic_binary sq)) White t = 1 \<and>
       painted sq (result (heuristic_binary sq)) Black t = 1"
    by (elim conjE)
  then have p: "painted sq [White, White, Black, Black] Black ''A'' = 1"
    unfolding r by (simp add: sq_def)
  from t have "changes (heuristic_binary sq) = int (switches (result (heuristic_binary sq)))"
    by (elim conjE)
  then have g: "changes (heuristic_binary sq) = 1" unfolding r s by simp
  from t obtain col where "length col = length sq"
    "\<forall>t \<in> set sq. painted sq col White t = 1 \<and> painted sq col Black t = 1"
    "switches col \<le> switches (result (heuristic_binary sq))"
    by (elim conjE exE)
  then have "length col = 4 \<and> painted sq col Black ''A'' = 1 \<and> switches col \<le> 1"
    unfolding r s by (simp add: sq_def)
  then have "\<exists>col. length col = 4 \<and> painted sq col Black ''A'' = 1 \<and> switches col \<le> 1" ..
  with c r p g show ?thesis unfolding sq_def by (intro conjI)
qed

section \<open>The sequence of the notebook\<close>

lemma level_change_between:
  fixes X :: "nat \<Rightarrow> int"
  assumes "i < j" "X i \<noteq> X j"
  shows "\<exists>k. i \<le> k \<and> k < j \<and> X k \<noteq> X (k + 1)"
  using assms
proof (induction j)
  case 0
  then show ?case by simp
next
  case (Suc j)
  show ?case
  proof (cases "X j = X (Suc j)")
    case True
    with Suc.prems have "i < j" "X i \<noteq> X j"
      by (auto simp: less_Suc_eq)
    from Suc.IH [OF this] show ?thesis by (auto simp: less_Suc_eq)
  next
    case False
    with Suc.prems show ?thesis by (intro exI [of _ j]) simp
  qed
qed

lemma sum_sqr_ge_one:
  fixes X :: "nat \<Rightarrow> int"
  assumes "i < j" "X i \<noteq> X j"
  shows "1 \<le> (\<Sum>k = i..<j. (X k - X (k + 1))\<^sup>2)"
proof -
  from level_change_between [OF assms] obtain k where k: "k \<in> {i..<j}" "X k \<noteq> X (k + 1)"
    by auto
  then have "X k - X (k + 1) \<noteq> 0" by simp
  then have "1 \<le> (X k - X (k + 1))\<^sup>2"
    by (metis add.commute add_0 int_one_le_iff_zero_less zero_less_power2)
  also have "\<dots> \<le> (\<Sum>k = i..<j. (X k - X (k + 1))\<^sup>2)"
    using k(1) by (intro member_le_sum) simp_all
  finally show ?thesis .
qed

lemma obj_ge_two:
  assumes "set_i sequence = [1..<n + 1]"
    and "1 \<le> i" "i < j" "j \<le> i'" "i' < j'" "j' \<le> n" "X i \<noteq> X j" "X i' \<noteq> X j'"
  shows "2 \<le> obj sequence X"
proof -
  have "1 + 1 \<le> (\<Sum>k = i..<j. (X k - X (k + 1))\<^sup>2) + (\<Sum>k = i'..<j'. (X k - X (k + 1))\<^sup>2)"
    using assms by (intro add_mono sum_sqr_ge_one)
  also have "\<dots> = (\<Sum>k \<in> {i..<j} \<union> {i'..<j'}. (X k - X (k + 1))\<^sup>2)"
    using assms by (intro sum.union_disjoint [symmetric]) auto
  also have "\<dots> \<le> (\<Sum>k = 1..<n. (X k - X (k + 1))\<^sup>2)"
    using assms by (intro sum_mono2) auto
  finally show ?thesis by (simp add: obj_ordered [OF assms(1)])
qed

text \<open>
  Claim C2. On the sequence \<open>A D E B A F C B C D E F\<close> the binary heuristic changes
  colour four times and its colouring has four switches, while the minimum is 2: the
  optimum of the model \<^verbatim>\<open>paintshop\<close> (the least objective over the assignments that
  paint one car of every type black) is 2, a colouring with one white and one black car
  of every type and two switches exists, and every colouring of the twelve positions with
  one white and one black car of every type has at least two switches. The lower bound:
  the two cars of type \<open>A\<close> stand at the positions 1 and 5 and the two of type \<open>F\<close> at
  6 and 12, and each pair forces a switch of its own.
\<close>

theorem notebook_sequence_heuristic_and_optimum:
  "result (heuristic_binary
      [''A'', ''D'', ''E'', ''B'', ''A'', ''F'', ''C'', ''B'', ''C'', ''D'', ''E'', ''F''])
     = [White, White, White, White, Black, Black, Black, Black, White, Black, Black, White] \<and>
   changes (heuristic_binary
      [''A'', ''D'', ''E'', ''B'', ''A'', ''F'', ''C'', ''B'', ''C'', ''D'', ''E'', ''F'']) = 4 \<and>
   switches (result (heuristic_binary
      [''A'', ''D'', ''E'', ''B'', ''A'', ''F'', ''C'', ''B'', ''C'', ''D'', ''E'', ''F''])) = 4 \<and>
   paintshop_optimum
      [''A'', ''D'', ''E'', ''B'', ''A'', ''F'', ''C'', ''B'', ''C'', ''D'', ''E'', ''F''] = Some 2 \<and>
   list_all (\<lambda>t.
       painted [''A'', ''D'', ''E'', ''B'', ''A'', ''F'', ''C'', ''B'', ''C'', ''D'', ''E'', ''F'']
         [White, Black, Black, Black, Black, Black, Black, White, White, White, White, White]
         White t = 1 \<and>
       painted [''A'', ''D'', ''E'', ''B'', ''A'', ''F'', ''C'', ''B'', ''C'', ''D'', ''E'', ''F'']
         [White, Black, Black, Black, Black, Black, Black, White, White, White, White, White]
         Black t = 1)
     [''A'', ''D'', ''E'', ''B'', ''A'', ''F'', ''C'', ''B'', ''C'', ''D'', ''E'', ''F''] \<and>
   switches [White, Black, Black, Black, Black, Black, Black, White, White, White, White, White]
     = 2 \<and>
   (\<forall>col.
      length col = 12 \<and>
      (\<forall>t \<in> set [''A'', ''D'', ''E'', ''B'', ''A'', ''F'', ''C'', ''B'', ''C'', ''D'', ''E'', ''F''].
         painted [''A'', ''D'', ''E'', ''B'', ''A'', ''F'', ''C'', ''B'', ''C'', ''D'', ''E'', ''F'']
           col White t = 1 \<and>
         painted [''A'', ''D'', ''E'', ''B'', ''A'', ''F'', ''C'', ''B'', ''C'', ''D'', ''E'', ''F'']
           col Black t = 1)
      \<longrightarrow> 2 \<le> switches col)"
proof -
  define sq where
    "sq = [''A'', ''D'', ''E'', ''B'', ''A'', ''F'', ''C'', ''B'', ''C'', ''D'', ''E'', ''F'']"
  have ij: "IJ sq = [(1, ''A''), (2, ''D''), (3, ''E''), (4, ''B''), (5, ''A''), (6, ''F''),
      (7, ''C''), (8, ''B''), (9, ''C''), (10, ''D''), (11, ''E''), (12, ''F'')]"
    unfolding sq_def by code_simp
  have len: "length sq = 12" by (simp add: sq_def)
  have "set_i sq = [1, 2, 3, 4, 5, 6, 7, 8, 9, 10, 11, 12]"
    unfolding sq_def by code_simp
  moreover have "[1..<12 + 1] = [1, 2, 3, 4, 5, 6, 7, 8, 9, 10, 11, 12 :: nat]"
    by code_simp
  ultimately have si: "set_i sq = [1..<12 + 1]" by simp
  then have si': "set_i sq = [1..<length sq + 1]" by (simp only: len)
  have heur: "result (heuristic_binary sq)
       = [White, White, White, White, Black, Black, Black, Black, White, Black, Black, White]"
    "changes (heuristic_binary sq) = 4"
    unfolding sq_def by code_simp+
  have sw: "switches [White, White, White, White, Black, Black, Black, Black, White, Black, Black, White] = 4"
    by code_simp
  define a0 :: "int list" where "a0 = [0, 1, 1, 1, 1, 1, 1, 0, 0, 0, 0, 0]"
  have opt: "paintshop_optimum sq = Some 2"
  proof (rule paintshop_optimum_eqI [where ?a0.0 = a0])
    show "length a0 = length sq" by (simp add: a0_def sq_def)
    show "set a0 \<subseteq> {0, 1}" by (simp add: a0_def)
    show "paintshop_feasible sq a0" unfolding a0_def sq_def by code_simp
    have "(\<Sum>k\<leftarrow>[1..<12]. (levels a0 k - levels a0 (k + 1))\<^sup>2) = 2"
      unfolding a0_def by code_simp
    then show "obj sq (levels a0) = 2" by (simp only: obj_ordered_list [OF si])
  next
    fix a assume "paintshop_feasible sq a"
    then have "BlackOnce (IJ sq) (levels a) ''A''" "BlackOnce (IJ sq) (levels a) ''F''"
      unfolding paintshop_feasible_def list_all_iff by (simp_all add: sq_def)
    then have "levels a 1 + levels a 5 = 1" "levels a 6 + levels a 12 = 1"
      unfolding BlackOnce_def black_sum_def ij by simp_all
    then have "levels a 1 \<noteq> levels a 5" "levels a 6 \<noteq> levels a 12" by presburger+
    then show "2 \<le> obj sq (levels a)"
      by (intro obj_ge_two [OF si, of 1 5 6 12]) simp_all
  qed
  have best: "list_all (\<lambda>t.
       painted sq [White, Black, Black, Black, Black, Black, Black, White, White, White, White, White]
         White t = 1 \<and>
       painted sq [White, Black, Black, Black, Black, Black, Black, White, White, White, White, White]
         Black t = 1) sq"
    unfolding sq_def by code_simp
  have best_sw:
    "switches [White, Black, Black, Black, Black, Black, Black, White, White, White, White, White] = 2"
    by code_simp
  have low: "\<forall>col. length col = 12 \<and>
      (\<forall>t \<in> set sq. painted sq col White t = 1 \<and> painted sq col Black t = 1)
      \<longrightarrow> 2 \<le> switches col"
  proof (intro allI impI)
    fix col
    assume c: "length col = 12 \<and>
      (\<forall>t \<in> set sq. painted sq col White t = 1 \<and> painted sq col Black t = 1)"
    then have "length col = length sq" "\<forall>t \<in> set sq. painted sq col Black t = 1"
      by (simp_all add: len)
    from optimum_le_switches [OF si' this] opt show "2 \<le> switches col" by simp
  qed
  from heur sw opt best best_sw low show ?thesis unfolding sq_def by simp
qed

theorem notebook_sequence_heuristic_and_optimum_witness:
  "length [White, White, White, White, Black, Black, Black, Black, White, Black, Black, White] = 12 \<and>
   list_all (\<lambda>t.
       painted [''A'', ''D'', ''E'', ''B'', ''A'', ''F'', ''C'', ''B'', ''C'', ''D'', ''E'', ''F'']
         [White, White, White, White, Black, Black, Black, Black, White, Black, Black, White]
         White t = 1 \<and>
       painted [''A'', ''D'', ''E'', ''B'', ''A'', ''F'', ''C'', ''B'', ''C'', ''D'', ''E'', ''F'']
         [White, White, White, White, Black, Black, Black, Black, White, Black, Black, White]
         Black t = 1)
     [''A'', ''D'', ''E'', ''B'', ''A'', ''F'', ''C'', ''B'', ''C'', ''D'', ''E'', ''F''] \<and>
   2 \<le> switches [White, White, White, White, Black, Black, Black, Black, White, Black, Black, White]"
proof -
  define sq where
    "sq = [''A'', ''D'', ''E'', ''B'', ''A'', ''F'', ''C'', ''B'', ''C'', ''D'', ''E'', ''F'']"
  define g where
    "g = [White, White, White, White, Black, Black, Black, Black, White, Black, Black, White]"
  have f: "list_all (\<lambda>t. painted sq g White t = 1 \<and> painted sq g Black t = 1) sq"
    unfolding sq_def g_def by code_simp
  then have b: "\<forall>t \<in> set sq. painted sq g White t = 1 \<and> painted sq g Black t = 1"
    by (simp only: list_all_iff)
  have l: "length g = 12" by (simp add: g_def)
  from notebook_sequence_heuristic_and_optimum
  have "\<forall>col. length col = 12 \<and>
      (\<forall>t \<in> set sq. painted sq col White t = 1 \<and> painted sq col Black t = 1)
      \<longrightarrow> 2 \<le> switches col"
    unfolding sq_def by (elim conjE)
  with l b have "2 \<le> switches g" by blast
  with l f show ?thesis unfolding sq_def g_def by blast
qed

section \<open>Invariants of the multi-vehicle heuristic\<close>

lemma multi_step_Inr:
  assumes "colors s (current_color s) x = Some k"
    and "colors s (change_color (current_color s)) x = Some k'"
  shows "multi_step x s = Inr
    (if k > 0 then
       s\<lparr>colors := (colors s)(current_color s := (colors s (current_color s))(x \<mapsto> k - 1)),
         result := result s @ [current_color s]\<rparr>
     else
       s\<lparr>changes := changes s + 1,
         colors := (colors s)(change_color (current_color s) :=
            (colors s (change_color (current_color s)))(x \<mapsto> k' - 1)),
         result := result s @ [change_color (current_color s)],
         current_color := change_color (current_color s)\<rparr>)"
  using assms by (simp add: multi_step_def paint_car_demand_def)

lemma multi_step_InrD:
  assumes "multi_step x s = Inr s'"
  obtains k k' where
    "colors s (current_color s) x = Some k"
    "current_color s' = (if k > 0 then current_color s else change_color (current_color s))"
    "colors s (current_color s') x = Some k'"
    "colors s' = (colors s)(current_color s' := (colors s (current_color s'))(x \<mapsto> k' - 1))"
    "result s' = result s @ [current_color s']"
    "changes s' = changes s + (if k > 0 then 0 else 1)"
proof -
  from assms obtain k where k: "colors s (current_color s) x = Some k"
    by (auto simp: multi_step_def split: option.splits)
  show thesis
  proof (cases "k > 0")
    case True
    with assms k have "s' = s\<lparr>colors := (colors s)(current_color s := (colors s (current_color s))(x \<mapsto> k - 1)),
         result := result s @ [current_color s]\<rparr>"
      by (simp add: multi_step_def paint_car_demand_def)
    with True k show ?thesis by (intro that [of k k]) simp_all
  next
    case False
    with assms k obtain k' where k': "colors s (change_color (current_color s)) x = Some k'"
      by (auto simp: multi_step_def paint_car_demand_def split: option.splits)
    with assms k False have "s' = s\<lparr>changes := changes s + 1,
         colors := (colors s)(change_color (current_color s) :=
            (colors s (change_color (current_color s)))(x \<mapsto> k' - 1)),
         result := result s @ [change_color (current_color s)],
         current_color := change_color (current_color s)\<rparr>"
      by (simp add: multi_step_def paint_car_demand_def)
    with False k k' show ?thesis by (intro that [of k k']) simp_all
  qed
qed

lemma multi_loop_snoc:
  "multi_loop (xs @ [x]) s =
     (case multi_loop xs s of Inl e \<Rightarrow> Inl e | Inr s' \<Rightarrow> multi_step x s')"
  by (induction xs arbitrary: s) (simp_all split: sum.splits)

lemma multi_loop_snoc_InrD:
  assumes "multi_loop (xs @ [x]) s = Inr s'"
  obtains s1 where "multi_loop xs s = Inr s1" "multi_step x s1 = Inr s'"
  using assms by (auto simp: multi_loop_snoc split: sum.splits)

lemma multi_step_keys:
  assumes "multi_step x s = Inr s'"
  shows "colors s' c t = None \<longleftrightarrow> colors s c t = None"
  using assms by (rule multi_step_InrD) auto

lemma multi_loop_total:
  assumes "\<forall>t \<in> set xs. \<forall>c. colors s c t \<noteq> None"
  shows "\<exists>s'. multi_loop xs s = Inr s'"
  using assms
proof (induction xs arbitrary: s)
  case Nil
  then show ?case by simp
next
  case (Cons x xs)
  then obtain k k' where "colors s (current_color s) x = Some k"
    "colors s (change_color (current_color s)) x = Some k'"
    by (metis list.set_intros(1) not_Some_eq)
  from multi_step_Inr [OF this] obtain s1 where s1: "multi_step x s = Inr s1" by blast
  have "\<forall>t \<in> set xs. \<forall>c. colors s1 c t \<noteq> None"
    using Cons.prems by (simp add: multi_step_keys [OF s1])
  from Cons.IH [OF this] s1 show ?case by simp
qed

lemma multi_bookkeeping:
  assumes "multi_loop xs (multi_init dw db) = Inr s"
  shows "length (result s) = length xs \<and>
    (\<forall>c t. colors s c t =
       map_option (\<lambda>k. k - int (painted xs (result s) c t)) (colors (multi_init dw db) c t)) \<and>
    current_color s = last (White # result s) \<and>
    changes s = int (switches (White # result s))"
  using assms
proof (induction xs arbitrary: s rule: rev_induct)
  case Nil
  then show ?case by (auto simp: multi_init_def switches_def option.map_ident)
next
  case (snoc x xs)
  from snoc.prems obtain s1 where s1: "multi_loop xs (multi_init dw db) = Inr s1"
    and step: "multi_step x s1 = Inr s"
    by (rule multi_loop_snoc_InrD)
  from snoc.IH [OF s1] have len: "length (result s1) = length xs"
    and book: "\<And>c t. colors s1 c t =
       map_option (\<lambda>k. k - int (painted xs (result s1) c t)) (colors (multi_init dw db) c t)"
    and cur: "current_color s1 = last (White # result s1)"
    and chg: "changes s1 = int (switches (White # result s1))"
    by simp_all
  from step obtain k k' where
    k: "colors s1 (current_color s1) x = Some k"
    and c': "current_color s = (if k > 0 then current_color s1 else change_color (current_color s1))"
    and k': "colors s1 (current_color s) x = Some k'"
    and col: "colors s = (colors s1)(current_color s := (colors s1 (current_color s))(x \<mapsto> k' - 1))"
    and res: "result s = result s1 @ [current_color s]"
    and ch: "changes s = changes s1 + (if k > 0 then 0 else 1)"
    by (rule multi_step_InrD)
  have sw: "switches ((White # result s1) @ [current_color s]) =
      switches (White # result s1) + (if current_color s \<noteq> last (White # result s1) then 1 else 0)"
    by (rule switches_snoc) simp
  have 1: "length (result s) = length (xs @ [x])" by (simp add: res len)
  have 2: "colors s c t =
       map_option (\<lambda>k. k - int (painted (xs @ [x]) (result s) c t)) (colors (multi_init dw db) c t)"
    for c t
  proof (cases "c = current_color s \<and> t = x")
    case True
    from k' book [of "current_color s" x] obtain k0 where
      "colors (multi_init dw db) (current_color s) x = Some k0"
      "k' = k0 - int (painted xs (result s1) (current_color s) x)"
      by auto
    with True show ?thesis
      by (simp add: col res painted_snoc [OF len])
  next
    case False
    then have "colors s c t = colors s1 c t" by (auto simp: col)
    moreover from False have "painted (xs @ [x]) (result s) c t = painted xs (result s1) c t"
      unfolding res by (auto simp: painted_snoc [OF len])
    ultimately show ?thesis by (simp add: book)
  qed
  have 3: "current_color s = last (White # result s)" by (simp add: res)
  have 4: "changes s = int (switches (White # result s))"
    unfolding res using sw cur chg by (simp add: ch c' change_color_neq)
  from 1 2 3 4 show ?case by blast
qed

lemma multi_nonneg:
  assumes "\<forall>t \<in> set xs. \<exists>w b. dw t = Some w \<and> db t = Some b \<and> 0 \<le> w \<and> 0 \<le> b \<and>
      int (count_list xs t) \<le> w + b"
    and "multi_loop xs (multi_init dw db) = Inr s"
  shows "\<forall>t \<in> set xs. \<forall>c k. colors s c t = Some k \<longrightarrow> 0 \<le> k"
  using assms
proof (induction xs arbitrary: s rule: rev_induct)
  case Nil
  then show ?case by simp
next
  case (snoc x xs)
  from snoc.prems(2) obtain s1 where s1: "multi_loop xs (multi_init dw db) = Inr s1"
    and step: "multi_step x s1 = Inr s"
    by (rule multi_loop_snoc_InrD)
  have pre: "\<forall>t \<in> set xs. \<exists>w b. dw t = Some w \<and> db t = Some b \<and> 0 \<le> w \<and> 0 \<le> b \<and>
      int (count_list xs t) \<le> w + b"
  proof
    fix t assume "t \<in> set xs"
    with snoc.prems(1) obtain w b where "dw t = Some w" "db t = Some b" "0 \<le> w" "0 \<le> b"
      "int (count_list (xs @ [x]) t) \<le> w + b" by auto
    then show "\<exists>w b. dw t = Some w \<and> db t = Some b \<and> 0 \<le> w \<and> 0 \<le> b \<and>
      int (count_list xs t) \<le> w + b"
      by (intro exI [of _ w] exI [of _ b]) (simp split: if_splits)
  qed
  note IH = snoc.IH [OF pre s1]
  from multi_bookkeeping [OF s1] have len: "length (result s1) = length xs"
    and book: "\<And>c t. colors s1 c t =
       map_option (\<lambda>k. k - int (painted xs (result s1) c t)) (colors (multi_init dw db) c t)"
    by simp_all
  from snoc.prems(1) obtain w b where wb: "dw x = Some w" "db x = Some b" "0 \<le> w" "0 \<le> b"
    "int (count_list xs x) + 1 \<le> w + b" by auto
  define pw where "pw = int (painted xs (result s1) White x)"
  define pb where "pb = int (painted xs (result s1) Black x)"
  have tot: "pw + pb = int (count_list xs x)"
    unfolding pw_def pb_def using painted_total [OF len, of x] by simp
  have cw: "colors s1 White x = Some (w - pw)" and cb: "colors s1 Black x = Some (b - pb)"
    using wb by (simp_all add: book multi_init_def pw_def pb_def)
  have nonneg: "0 \<le> w - pw \<and> 0 \<le> b - pb"
  proof (cases "x \<in> set xs")
    case True
    with IH cw cb show ?thesis by blast
  next
    case False
    then have "count_list xs x = 0" by (simp add: count_list_0_iff)
    with tot have "pw = 0" "pb = 0" by (simp_all add: pw_def pb_def)
    with wb show ?thesis by simp
  qed
  have remain: "1 \<le> (w - pw) + (b - pb)" using wb(5) tot by simp
  from step obtain k k' where
    k: "colors s1 (current_color s1) x = Some k"
    and c': "current_color s = (if k > 0 then current_color s1 else change_color (current_color s1))"
    and k': "colors s1 (current_color s) x = Some k'"
    and col: "colors s = (colors s1)(current_color s := (colors s1 (current_color s))(x \<mapsto> k' - 1))"
    by (rule multi_step_InrD)
  have "1 \<le> k'"
  proof (cases "k > 0")
    case True
    with c' k k' show ?thesis by simp
  next
    case False
    with c' have c'': "current_color s = change_color (current_color s1)" by simp
    show ?thesis
      using k k' False nonneg remain cw cb unfolding c''
      by (cases "current_color s1") (simp_all add: change_color_simps)
  qed
  show ?case
  proof (intro ballI allI impI)
    fix t c j assume t: "t \<in> set (xs @ [x])" and j: "colors s c t = Some j"
    show "0 \<le> j"
    proof (cases "t = x")
      case True
      show ?thesis
      proof (cases "c = current_color s")
        case True
        with \<open>t = x\<close> \<open>1 \<le> k'\<close> j show ?thesis by (simp add: col)
      next
        case False
        with \<open>t = x\<close> have "colors s c t = colors s1 c x" by (simp add: col)
        with nonneg cw cb j show ?thesis by (cases c) simp_all
      qed
    next
      case False
      with t have "t \<in> set xs" by simp
      moreover from False have "colors s c t = colors s1 c t" by (simp add: col)
      ultimately show ?thesis using IH j by simp
    qed
  qed
qed

lemma multi_init_colors:
  "colors (multi_init dw db) White = dw" "colors (multi_init dw db) Black = db"
  by (simp_all add: multi_init_def)

text \<open>
  Claim C3. For every sequence and every feasible demand (the black count of every type
  between 0 and the number of its occurrences, the white count the rest, and the types of
  the demand those of the sequence), the multi-vehicle heuristic returns a colouring that
  paints, of every type \<open>t\<close>, exactly the demanded number of cars black and the remaining
  occurrences of \<open>t\<close> white.
\<close>

theorem heuristic_multi_conserves_demand:
  assumes "feasible_demand sequence dw db"
  shows "\<exists>s. heuristic_multi sequence dw db = Inr s \<and>
    length (result s) = length sequence \<and>
    (\<forall>t \<in> set sequence.
       db t = Some (int (painted sequence (result s) Black t)) \<and>
       painted sequence (result s) White t
         = count_list sequence t - painted sequence (result s) Black t)"
proof -
  from assms have dom: "dom dw = set sequence" "dom db = set sequence"
    and range: "\<forall>t \<in> set sequence. \<exists>b. db t = Some b \<and> 0 \<le> b \<and> b \<le> int (count_list sequence t) \<and>
        dw t = Some (int (count_list sequence t) - b)"
    unfolding feasible_demand_def demand_in_range_def by simp_all
  have "\<forall>t \<in> set sequence. \<forall>c. colors (multi_init dw db) c t \<noteq> None"
  proof (intro ballI allI)
    fix t c assume "t \<in> set sequence"
    with dom have "t \<in> dom dw" "t \<in> dom db" by simp_all
    then show "colors (multi_init dw db) c t \<noteq> None"
      by (cases c) (auto simp: multi_init_colors)
  qed
  from multi_loop_total [OF this] obtain s where s: "multi_loop sequence (multi_init dw db) = Inr s"
    by blast
  from multi_bookkeeping [OF s] have len: "length (result s) = length sequence"
    and book: "\<And>c t. colors s c t =
       map_option (\<lambda>k. k - int (painted sequence (result s) c t)) (colors (multi_init dw db) c t)"
    by simp_all
  have "\<forall>t \<in> set sequence. \<exists>w b. dw t = Some w \<and> db t = Some b \<and> 0 \<le> w \<and> 0 \<le> b \<and>
      int (count_list sequence t) \<le> w + b"
    using range by fastforce
  from multi_nonneg [OF this s]
  have nonneg: "\<forall>t \<in> set sequence. \<forall>c k. colors s c t = Some k \<longrightarrow> 0 \<le> k" .
  have "db t = Some (int (painted sequence (result s) Black t)) \<and>
       painted sequence (result s) White t
         = count_list sequence t - painted sequence (result s) Black t"
    if t: "t \<in> set sequence" for t
  proof -
    from range t obtain b where b: "db t = Some b" "0 \<le> b" "b \<le> int (count_list sequence t)"
      "dw t = Some (int (count_list sequence t) - b)" by blast
    from book [of White t] book [of Black t] b
    have "colors s White t
        = Some (int (count_list sequence t) - b - int (painted sequence (result s) White t))"
      "colors s Black t = Some (b - int (painted sequence (result s) Black t))"
      by (simp_all add: multi_init_colors)
    with nonneg t
    have "0 \<le> int (count_list sequence t) - b - int (painted sequence (result s) White t)"
      "0 \<le> b - int (painted sequence (result s) Black t)"
      by blast+
    with painted_total [OF len, of t] b show ?thesis by simp
  qed
  with s len show ?thesis unfolding heuristic_multi_def by blast
qed

theorem heuristic_multi_conserves_demand_witness:
  "feasible_demand [''A'', ''B'', ''A'', ''A''] [''A'' \<mapsto> 1, ''B'' \<mapsto> 1] [''A'' \<mapsto> 2, ''B'' \<mapsto> 0] \<and>
   printed (heuristic_multi [''A'', ''B'', ''A'', ''A''] [''A'' \<mapsto> 1, ''B'' \<mapsto> 1] [''A'' \<mapsto> 2, ''B'' \<mapsto> 0])
     = Inr ([White, White, Black, Black], 1) \<and>
   painted [''A'', ''B'', ''A'', ''A''] [White, White, Black, Black] Black ''A'' = 2 \<and>
   painted [''A'', ''B'', ''A'', ''A''] [White, White, Black, Black] White ''A'' = 1"
proof -
  define sq where "sq = [''A'', ''B'', ''A'', ''A'']"
  define dw :: "car_type \<rightharpoonup> int" where "dw = [''A'' \<mapsto> 1, ''B'' \<mapsto> 1]"
  define db :: "car_type \<rightharpoonup> int" where "db = [''A'' \<mapsto> 2, ''B'' \<mapsto> 0]"
  have f: "feasible_demand sq dw db"
    unfolding feasible_demand_def demand_in_range_def sq_def dw_def db_def by auto
  have p: "printed (heuristic_multi sq dw db) = Inr ([White, White, Black, Black], 1)"
    unfolding sq_def dw_def db_def by code_simp
  from heuristic_multi_conserves_demand [OF f] obtain s where
    s: "heuristic_multi sq dw db = Inr s"
    and d: "\<forall>t \<in> set sq. db t = Some (int (painted sq (result s) Black t)) \<and>
       painted sq (result s) White t = count_list sq t - painted sq (result s) Black t"
    by blast
  from s p have r: "result s = [White, White, Black, Black]" by (simp add: printed_def)
  from d have "db ''A'' = Some (int (painted sq (result s) Black ''A''))"
    "painted sq (result s) White ''A'' = count_list sq ''A'' - painted sq (result s) Black ''A''"
    by (simp_all add: sq_def)
  then have "painted sq [White, White, Black, Black] Black ''A'' = 2"
    "painted sq [White, White, Black, Black] White ''A'' = 1"
    unfolding r by (simp_all add: db_def sq_def)
  with f p show ?thesis unfolding sq_def dw_def db_def by blast
qed

section \<open>The reported number of changes\<close>

text \<open>
  The multi-vehicle cell counts a change whenever it leaves the current colour, also
  before the first car, where the colouring has no earlier label to differ from: its
  count is the switch count of the colouring, and one more when the first car is black.
\<close>

lemma multi_changes_switches:
  assumes "heuristic_multi sequence dw db = Inr s"
  shows "changes s = int (switches (result s)) +
     (if result s \<noteq> [] \<and> hd (result s) = Black then 1 else 0)"
proof -
  from assms multi_bookkeeping have "changes s = int (switches (White # result s))"
    unfolding heuristic_multi_def by blast
  then show ?thesis by (simp add: switches_White_Cons color_cases)
qed

text \<open>
  Claim C5, where the code departs from it. The claim says that the number of changes the
  heuristic reports is the switch count of the colouring it returns. For the sequence
  \<open>A\<close> with a feasible demand of no white and one black car, the multi-vehicle cell
  reports one change, and its colouring, the single label black, has no switch.
\<close>

theorem heuristic_multi_counts_first_change:
  "feasible_demand [''A''] [''A'' \<mapsto> 0] [''A'' \<mapsto> 1] \<and>
   printed (heuristic_multi [''A''] [''A'' \<mapsto> 0] [''A'' \<mapsto> 1]) = Inr ([Black], 1) \<and>
   switches [Black] = 0"
proof -
  have "feasible_demand [''A''] [''A'' \<mapsto> 0] [''A'' \<mapsto> 1]"
    unfolding feasible_demand_def demand_in_range_def by auto
  moreover have "printed (heuristic_multi [''A''] [''A'' \<mapsto> 0] [''A'' \<mapsto> 1]) = Inr ([Black], 1)"
    by code_simp
  moreover have "switches [Black] = 0" by code_simp
  ultimately show ?thesis by blast
qed

section \<open>Exhausted capacity\<close>

text \<open>
  Claim C6, as the code has it. The claim says that the heuristic fails with an error
  when neither colour has capacity left for the type of the current car. The code has no
  such check: on the sequence \<open>A\<close> with no white and no black demand it changes to
  black, paints the car, leaves the black capacity at \<open>-1\<close> and returns the colouring.
\<close>

theorem heuristic_multi_no_exhausted_error:
  "printed (heuristic_multi [''A''] [''A'' \<mapsto> 0] [''A'' \<mapsto> 0]) = Inr ([Black], 1) \<and>
   remaining (heuristic_multi [''A''] [''A'' \<mapsto> 0] [''A'' \<mapsto> 0]) White ''A'' = Some 0 \<and>
   remaining (heuristic_multi [''A''] [''A'' \<mapsto> 0] [''A'' \<mapsto> 0]) Black ''A'' = Some (- 1)"
  by code_simp

text \<open>
  Claim C6, amended. Whenever the current colour has no remaining capacity (zero or less)
  for the type of the current car and the other colour has none either, the step of the
  multi-vehicle heuristic still succeeds: it changes to the other colour, counts one
  change, appends that colour to the result and lowers its capacity for the type by one,
  to a value below zero, and the loop goes on with the rest of the sequence.
\<close>

theorem multi_step_exhausted:
  assumes "colors s (current_color s) car = Some k" "k \<le> 0"
    and "colors s (change_color (current_color s)) car = Some k'" "k' \<le> 0"
  shows "\<exists>s'. multi_step car s = Inr s' \<and>
     result s' = result s @ [change_color (current_color s)] \<and>
     current_color s' = change_color (current_color s) \<and>
     changes s' = changes s + 1 \<and>
     colors s' (current_color s') car = Some (k' - 1) \<and> k' - 1 < 0 \<and>
     (\<forall>rest. multi_loop (car # rest) s = multi_loop rest s')"
  using assms by (simp add: multi_step_Inr [OF assms(1) assms(3)])

theorem multi_step_exhausted_witness:
  "colors (multi_init [''A'' \<mapsto> 0] [''A'' \<mapsto> 0]) White ''A'' = Some 0 \<and>
   colors (multi_init [''A'' \<mapsto> 0] [''A'' \<mapsto> 0]) Black ''A'' = Some 0 \<and>
   (\<exists>s'. multi_step ''A'' (multi_init [''A'' \<mapsto> 0] [''A'' \<mapsto> 0]) = Inr s' \<and>
      result s' = [Black] \<and> changes s' = 1 \<and> colors s' Black ''A'' = Some (- 1))"
proof -
  define s :: "(car_type \<rightharpoonup> int) heuristic_state" where "s = multi_init [''A'' \<mapsto> 0] [''A'' \<mapsto> 0]"
  have cur: "current_color s = White" "result s = []" "changes s = 0"
    by (simp_all add: s_def multi_init_def)
  have a: "colors s (current_color s) ''A'' = Some 0"
    and b: "colors s (change_color (current_color s)) ''A'' = Some 0"
    by (simp_all add: s_def multi_init_def change_color_simps)
  have z: "(0::int) \<le> 0" by simp
  from multi_step_exhausted [OF a z b z] obtain s' where
    "multi_step ''A'' s = Inr s'" "result s' = result s @ [change_color (current_color s)]"
    "current_color s' = change_color (current_color s)" "changes s' = changes s + 1"
    "colors s' (current_color s') ''A'' = Some (0 - 1)"
    by blast
  then have "multi_step ''A'' s = Inr s' \<and> result s' = [Black] \<and> changes s' = 1 \<and>
      colors s' Black ''A'' = Some (- 1)"
    by (simp add: cur change_color_simps)
  with a b show ?thesis unfolding cur change_color_simps s_def [symmetric] by blast
qed

section \<open>Demands out of range\<close>




section \<open>The empty sequence\<close>

text \<open>
  Claim C8, as the code has it. The claim says that the formulation and the QUBO
  dictionary fail for the empty sequence. The code of the notebook has no such check: the
  records of \<^verbatim>\<open>IJ\<close> are the empty list, the objective is the empty sum 0 (which is
  also the optimum of the model, met by the empty assignment), and no coefficient is
  written.
\<close>

theorem empty_sequence_not_rejected:
  "IJ [] = [] \<and> obj [] (levels []) = 0 \<and> paintshop_optimum [] = Some 0 \<and>
   qubo_items ((+) :: nat \<Rightarrow> nat \<Rightarrow> nat) 0 = []"
  by code_simp

text \<open>
  Claim C8, amended. For the empty sequence the code raises nothing of its own: the set
  \<^verbatim>\<open>IJ\<close> has no record, the objective is 0 for every assignment of levels, the empty
  assignment is feasible and optimal with objective 0, and the coefficient dictionary of
  a matrix of shape \<open>0 \<times> 0\<close> is empty.
\<close>

theorem empty_sequence_empty_model:
  "IJ [] = [] \<and> obj [] X = 0 \<and> paintshop_feasible [] [] \<and>
   paintshop_optimum [] = Some 0 \<and>
   final_qubo qubo_matrix (length ([] :: car_type list)) = Map.empty"
proof -
  have "paintshop_optimum [] = Some 0" by code_simp
  then show ?thesis
    by (simp add: IJ_def obj_def set_i_def uels_def paintshop_feasible_def final_qubo_def
        qubo_items_def triu_indices_def)
qed

section \<open>Totality of the multi-vehicle heuristic\<close>

text \<open>
  Claim C10, as the code has it. The claim says that for an infeasible demand a remaining
  capacity is decremented below zero. For the sequence \<open>A A\<close> with a black demand of 3
  (and the white count \<open>2 - 3 = -1\<close> as the rest) the demand is out of range, both cars
  are painted black, the white capacity keeps its value \<open>-1\<close> untouched, and the black
  capacity ends at 1: no capacity was decremented below zero.
\<close>

theorem out_of_range_no_counter_below_zero:
  "\<not> demand_in_range [''A'', ''A''] [''A'' \<mapsto> - 1] [''A'' \<mapsto> 3] \<and>
   printed (heuristic_multi [''A'', ''A''] [''A'' \<mapsto> - 1] [''A'' \<mapsto> 3]) = Inr ([Black, Black], 1) \<and>
   remaining (heuristic_multi [''A'', ''A''] [''A'' \<mapsto> - 1] [''A'' \<mapsto> 3]) White ''A'' = Some (- 1) \<and>
   remaining (heuristic_multi [''A'', ''A''] [''A'' \<mapsto> - 1] [''A'' \<mapsto> 3]) Black ''A'' = Some 1"
proof -
  have "\<not> demand_in_range [''A'', ''A''] [''A'' \<mapsto> - 1] [''A'' \<mapsto> 3]"
    by (simp add: demand_in_range_def)
  moreover have
    "printed (heuristic_multi [''A'', ''A''] [''A'' \<mapsto> - 1] [''A'' \<mapsto> 3]) = Inr ([Black, Black], 1) \<and>
     remaining (heuristic_multi [''A'', ''A''] [''A'' \<mapsto> - 1] [''A'' \<mapsto> 3]) White ''A'' = Some (- 1) \<and>
     remaining (heuristic_multi [''A'', ''A''] [''A'' \<mapsto> - 1] [''A'' \<mapsto> 3]) Black ''A'' = Some 1"
    by code_simp
  ultimately show ?thesis by blast
qed

lemma meets_demand_in_range:
  assumes "length coloring = length sequence" "meets_demand sequence coloring dw db"
  shows "demand_in_range sequence dw db"
  unfolding demand_in_range_def
proof
  fix t assume "t \<in> set sequence"
  with assms(2) have "dw t = Some (int (painted sequence coloring White t))"
    "db t = Some (int (painted sequence coloring Black t))"
    unfolding meets_demand_def by simp_all
  with painted_total [OF assms(1), of t]
  show "\<exists>b. db t = Some b \<and> 0 \<le> b \<and> b \<le> int (count_list sequence t) \<and>
        dw t = Some (int (count_list sequence t) - b)"
    by simp
qed

text \<open>
  Claim C10, amended. For every sequence whose types are all keys of both demand
  dictionaries, the multi-vehicle heuristic is total: it raises nothing and returns a
  colouring with exactly one label for every position, also when the demand is out of
  range, and then the colouring does not meet the demand. A step of the heuristic lowers a
  remaining capacity to a value below zero only when both colours' capacities for the
  type of the current car are already zero or less, which a demand out of range need not
  cause.
\<close>

theorem heuristic_multi_total:
  assumes "set sequence \<subseteq> dom dw" "set sequence \<subseteq> dom db"
  shows "(\<exists>s. heuristic_multi sequence dw db = Inr s \<and>
       length (result s) = length sequence \<and>
       (\<not> demand_in_range sequence dw db \<longrightarrow> \<not> meets_demand sequence (result s) dw db)) \<and>
    (\<forall>car s s' c j.
       multi_step car s = Inr s' \<and> colors s' c car = Some j \<and> j < 0 \<and>
       colors s c car \<noteq> Some j
       \<longrightarrow> (\<forall>c'. \<exists>k. colors s c' car = Some k \<and> k \<le> 0))"
proof (intro conjI allI impI)
  have "\<forall>t \<in> set sequence. \<forall>c. colors (multi_init dw db) c t \<noteq> None"
  proof (intro ballI allI)
    fix t c assume "t \<in> set sequence"
    with assms have "t \<in> dom dw" "t \<in> dom db" by blast+
    then show "colors (multi_init dw db) c t \<noteq> None"
      by (cases c) (auto simp: multi_init_colors)
  qed
  from multi_loop_total [OF this] obtain s where s: "multi_loop sequence (multi_init dw db) = Inr s"
    by blast
  from multi_bookkeeping [OF s] have len: "length (result s) = length sequence" by simp
  from meets_demand_in_range [OF len]
  have "\<not> demand_in_range sequence dw db \<longrightarrow> \<not> meets_demand sequence (result s) dw db" by blast
  with s len show "\<exists>s. heuristic_multi sequence dw db = Inr s \<and>
       length (result s) = length sequence \<and>
       (\<not> demand_in_range sequence dw db \<longrightarrow> \<not> meets_demand sequence (result s) dw db)"
    unfolding heuristic_multi_def by blast
next
  fix car c c' j and s s' :: "(car_type \<rightharpoonup> int) heuristic_state"
  assume h: "multi_step car s = Inr s' \<and> colors s' c car = Some j \<and> j < 0 \<and>
       colors s c car \<noteq> Some j"
  then have step: "multi_step car s = Inr s'" and j: "colors s' c car = Some j" "j < 0"
    and changed: "colors s c car \<noteq> Some j" by simp_all
  from step obtain k k' where
    k: "colors s (current_color s) car = Some k"
    and cur: "current_color s' = (if k > 0 then current_color s else change_color (current_color s))"
    and k': "colors s (current_color s') car = Some k'"
    and col: "colors s' = (colors s)(current_color s' := (colors s (current_color s'))(car \<mapsto> k' - 1))"
    by (rule multi_step_InrD)
  from j changed have c: "c = current_color s'"
    by (cases "c = current_color s'") (simp_all add: col)
  with j have "k' - 1 < 0" by (simp add: col)
  then have low': "k' \<le> 0" by simp
  have low: "k \<le> 0"
  proof (rule ccontr)
    assume "\<not> k \<le> 0"
    with cur k k' have "k' = k" by simp
    with low' \<open>\<not> k \<le> 0\<close> show False by simp
  qed
  with cur have other: "current_color s' = change_color (current_color s)" by simp
  show "\<exists>k. colors s c' car = Some k \<and> k \<le> 0"
  proof (cases "c' = current_color s")
    case True
    with k low show ?thesis by simp
  next
    case False
    then have "c' = change_color (current_color s)"
      by (cases c'; cases "current_color s") (simp_all add: change_color_simps)
    with k' low' other show ?thesis by simp
  qed
qed

theorem heuristic_multi_total_witness:
  "set [''A'', ''A'', ''B''] \<subseteq> dom [''A'' \<mapsto> 0 :: int, ''B'' \<mapsto> 0] \<and>
   set [''A'', ''A'', ''B''] \<subseteq> dom [''A'' \<mapsto> 1 :: int, ''B'' \<mapsto> 2] \<and>
   \<not> demand_in_range [''A'', ''A'', ''B''] [''A'' \<mapsto> 0, ''B'' \<mapsto> 0] [''A'' \<mapsto> 1, ''B'' \<mapsto> 2] \<and>
   printed (heuristic_multi [''A'', ''A'', ''B''] [''A'' \<mapsto> 0, ''B'' \<mapsto> 0] [''A'' \<mapsto> 1, ''B'' \<mapsto> 2])
      = Inr ([Black, White, Black], 3) \<and>
   \<not> meets_demand [''A'', ''A'', ''B''] [Black, White, Black] [''A'' \<mapsto> 0, ''B'' \<mapsto> 0] [''A'' \<mapsto> 1, ''B'' \<mapsto> 2] \<and>
   (\<exists>s'. multi_step ''A'' (multi_init [''A'' \<mapsto> 0] [''A'' \<mapsto> 0]) = Inr s' \<and>
      colors s' Black ''A'' = Some (- 1)) \<and>
   (\<exists>k. colors (multi_init [''A'' \<mapsto> 0] [''A'' \<mapsto> 0]) White ''A'' = Some k \<and> k \<le> 0) \<and>
   (\<exists>k. colors (multi_init [''A'' \<mapsto> 0] [''A'' \<mapsto> 0]) Black ''A'' = Some k \<and> k \<le> 0)"
proof -
  define sq where "sq = [''A'', ''A'', ''B'']"
  define dw :: "car_type \<rightharpoonup> int" where "dw = [''A'' \<mapsto> 0, ''B'' \<mapsto> 0]"
  define db :: "car_type \<rightharpoonup> int" where "db = [''A'' \<mapsto> 1, ''B'' \<mapsto> 2]"
  define s0 :: "(car_type \<rightharpoonup> int) heuristic_state"
    where "s0 = multi_init [''A'' \<mapsto> 0] [''A'' \<mapsto> 0]"
  have a: "set sq \<subseteq> dom dw" and b: "set sq \<subseteq> dom db"
    by (simp_all add: sq_def dw_def db_def)
  have n: "\<not> demand_in_range sq dw db"
    by (simp add: demand_in_range_def sq_def dw_def db_def)
  have p: "printed (heuristic_multi sq dw db) = Inr ([Black, White, Black], 3)"
    unfolding sq_def dw_def db_def by code_simp
  note t = heuristic_multi_total [OF a b]
  from t n obtain s where
    "heuristic_multi sq dw db = Inr s" "\<not> meets_demand sq (result s) dw db"
    by blast
  with p have m: "\<not> meets_demand sq [Black, White, Black] dw db"
    by (simp add: printed_def)
  from t have steps: "\<forall>car s s' c j.
       multi_step car s = Inr s' \<and> colors s' c car = Some j \<and> j < 0 \<and>
       colors s c car \<noteq> Some j
       \<longrightarrow> (\<forall>c'. \<exists>k. colors s c' car = Some k \<and> k \<le> 0)"
    by (elim conjE)
  have "\<exists>s'. multi_step ''A'' s0 = Inr s' \<and> colors s' Black ''A'' = Some (- 1)"
    by (simp add: s0_def multi_step_def paint_car_demand_def multi_init_def change_color_def)
  then obtain s' where s': "multi_step ''A'' s0 = Inr s'" "colors s' Black ''A'' = Some (- 1)"
    by blast
  have "colors s0 Black ''A'' \<noteq> Some (- 1)" by (simp add: s0_def multi_init_def)
  with s' have "multi_step ''A'' s0 = Inr s' \<and> colors s' Black ''A'' = Some (- 1) \<and>
      (- 1 :: int) < 0 \<and> colors s0 Black ''A'' \<noteq> Some (- 1)"
    by simp
  from steps [rule_format, OF this]
  have both: "\<exists>k. colors s0 c' ''A'' = Some k \<and> k \<le> 0" for c' .
  from s' have e: "\<exists>s'. multi_step ''A'' s0 = Inr s' \<and> colors s' Black ''A'' = Some (- 1)"
    by blast
  from a b n p m e both [of White] both [of Black]
  show ?thesis unfolding sq_def dw_def db_def s0_def by (intro conjI)
qed

section \<open>The keys of the coefficient dictionary\<close>

lemma triu_indices_set: "(r, c) \<in> set (triu_indices n) \<longleftrightarrow> r \<le> c \<and> c < n"
  by (fastforce simp: triu_indices_def)

lemma distinct_concat_map:
  assumes "distinct xs" "\<And>x. distinct (f x)"
    and "\<And>x y. x \<noteq> y \<Longrightarrow> set (f x) \<inter> set (f y) = {}"
  shows "distinct (concat (map f xs))"
  using assms(1)
proof (induction xs)
  case Nil
  then show ?case by simp
next
  case (Cons x xs)
  then have "x \<notin> set xs" "distinct (concat (map f xs))" by simp_all
  moreover from \<open>x \<notin> set xs\<close> have "set (f x) \<inter> set (f y) = {}" if "y \<in> set xs" for y
    using that by (intro assms(3)) auto
  ultimately show ?case by (auto simp: assms(2))
qed

lemma distinct_triu_indices: "distinct (triu_indices n)"
  unfolding triu_indices_def
  by (rule distinct_concat_map) (auto simp: distinct_map inj_on_def)

lemma split_at_mark:
  assumes "a \<notin> set xs" "a \<notin> set xs'" "xs @ a # ys = xs' @ a # ys'"
  shows "xs = xs' \<and> ys = ys'"
  using assms
proof (induction xs arbitrary: xs')
  case Nil
  then show ?case by (cases xs') auto
next
  case (Cons x xs)
  then show ?case by (cases xs') auto
qed

lemma qubo_key_inj:
  assumes "qubo_key r c = qubo_key r' c'"
  shows "r = r' \<and> c = c'"
proof -
  define tail where "tail r c = (if r = c then '')'' else str_nat c @ '')'')" for r c :: nat
  have key: "qubo_key r c = CHR ''('' # str_nat r @ CHR '','' # tail r c" for r c
    by (simp add: qubo_key_def tail_def)
  from assms have "str_nat r @ CHR '','' # tail r c = str_nat r' @ CHR '','' # tail r' c'"
    by (simp add: key)
  from split_at_mark [OF str_nat_no_comma str_nat_no_comma this]
  have r: "str_nat r = str_nat r'" and t: "tail r c = tail r' c'" by simp_all
  from r have "r = r'" by (rule str_nat_inj)
  moreover from t \<open>r = r'\<close> have "c = c'"
    by (auto simp: tail_def str_nat_nonempty dest: str_nat_inj split: if_splits)
  ultimately show ?thesis by simp
qed

lemma fold_update_other:
  assumes "\<And>k v d. f (k, v) d = d(k \<mapsto> v)"
  shows "k \<notin> fst ` set xs \<Longrightarrow> fold f xs m k = m k"
  by (induction xs arbitrary: m) (auto simp: assms)

lemma fold_update_lookup:
  assumes f: "\<And>k v d. f (k, v) d = d(k \<mapsto> v)"
  shows "distinct (map fst xs) \<Longrightarrow> (k, v) \<in> set xs \<Longrightarrow> fold f xs m k = Some v"
proof (induction xs arbitrary: m)
  case Nil
  then show ?case by simp
next
  case (Cons x xs)
  show ?case
  proof (cases "(k, v) = x")
    case True
    then have x: "x = (k, v)" by simp
    from Cons.prems(1) have fresh: "k \<notin> fst ` set xs" unfolding x by simp
    have "fold f (x # xs) m k = fold f xs (m(k \<mapsto> v)) k"
      by (simp add: x f)
    also have "\<dots> = (m(k \<mapsto> v)) k"
      using f fresh by (rule fold_update_other)
    finally show ?thesis by simp
  next
    case False
    with Cons.prems have "distinct (map fst xs)" "(k, v) \<in> set xs" by auto
    from Cons.IH [OF this] show ?thesis by simp
  qed
qed

lemma dom_fold_update:
  assumes "\<And>k v d. f (k, v) d = d(k \<mapsto> v)"
  shows "dom (fold f xs m) = dom m \<union> fst ` set xs"
  by (induction xs arbitrary: m) (auto simp: assms)

lemma qubo_items_keys:
  "map fst (qubo_items qubo_matrix n) = map (\<lambda>(r, c). qubo_key r c) (triu_indices n)"
  by (simp add: qubo_items_def comp_def case_prod_unfold)

lemma distinct_qubo_keys: "distinct (map fst (qubo_items qubo_matrix n))"
  unfolding qubo_items_keys distinct_map
  by (auto simp: distinct_triu_indices inj_on_def dest: qubo_key_inj)

lemma final_qubo_upper:
  assumes "r \<le> c" "c < n"
  shows "final_qubo qubo_matrix n (qubo_key r c) = Some (qubo_matrix r c)"
proof -
  from assms have "(r, c) \<in> set (triu_indices n)" by (simp add: triu_indices_set)
  then have "(qubo_key r c, qubo_matrix r c) \<in> set (qubo_items qubo_matrix n)"
    unfolding qubo_items_def by force
  with distinct_qubo_keys show ?thesis
    unfolding final_qubo_def by (intro fold_update_lookup) simp_all
qed

lemma dom_final_qubo:
  "dom (final_qubo qubo_matrix n) = {qubo_key r c | r c. r \<le> c \<and> c < n}"
proof -
  have "fst ` set (qubo_items qubo_matrix n) = {qubo_key r c | r c. r \<le> c \<and> c < n}"
    unfolding qubo_items_def by (force simp: triu_indices_set image_iff)
  moreover have "dom (final_qubo qubo_matrix n) = fst ` set (qubo_items qubo_matrix n)"
    unfolding final_qubo_def
    by (subst dom_fold_update [where f = "\<lambda>(k, v) d. d(k \<mapsto> v)"]) simp_all
  ultimately show ?thesis by simp
qed

lemma final_qubo_lower:
  assumes "c < r"
  shows "final_qubo qubo_matrix n (qubo_key r c) = None"
proof -
  have "qubo_key r c \<notin> dom (final_qubo qubo_matrix n)"
    unfolding dom_final_qubo using assms by (auto dest: qubo_key_inj)
  then show ?thesis by blast
qed

text \<open>
  Claim C9. The loop over the upper triangle visits every index pair \<open>(r, c)\<close> with
  \<open>r \<le> c < n\<close> exactly once and no other pair, and no two of its assignments write the
  same key. The keys of the dictionary are exactly the strings \<^verbatim>\<open>(i,)\<close> for \<open>i < n\<close>,
  each holding the diagonal entry \<open>i, i\<close> of the matrix, and \<^verbatim>\<open>(i,j)\<close> for
  \<open>i < j < n\<close>, each holding the entry \<open>i, j\<close>; there is no key \<^verbatim>\<open>(i,j)\<close> with
  \<open>i > j\<close>.
\<close>

theorem final_qubo_keys:
  "distinct (triu_indices n) \<and>
   (\<forall>r c. (r, c) \<in> set (triu_indices n) \<longleftrightarrow> r \<le> c \<and> c < n) \<and>
   distinct (map fst (qubo_items qubo_matrix n)) \<and>
   dom (final_qubo qubo_matrix n) =
     {''('' @ str_nat i @ '',)'' | i. i < n} \<union>
     {''('' @ str_nat i @ '','' @ str_nat j @ '')'' | i j. i < j \<and> j < n} \<and>
   (\<forall>i. i < n \<longrightarrow>
      final_qubo qubo_matrix n (''('' @ str_nat i @ '',)'') = Some (qubo_matrix i i)) \<and>
   (\<forall>i j. i < j \<and> j < n \<longrightarrow>
      final_qubo qubo_matrix n (''('' @ str_nat i @ '','' @ str_nat j @ '')'')
        = Some (qubo_matrix i j)) \<and>
   (\<forall>i j. j < i \<longrightarrow>
      final_qubo qubo_matrix n (''('' @ str_nat i @ '','' @ str_nat j @ '')'') = None)"
proof -
  have diag: "qubo_key i i = ''('' @ str_nat i @ '',)''" for i
    by (simp add: qubo_key_def)
  have off: "qubo_key i j = ''('' @ str_nat i @ '','' @ str_nat j @ '')''" if "i \<noteq> j" for i j
    using that by (simp add: qubo_key_def)
  have "{qubo_key r c | r c. r \<le> c \<and> c < n} =
     {''('' @ str_nat i @ '',)'' | i. i < n} \<union>
     {''('' @ str_nat i @ '','' @ str_nat j @ '')'' | i j. i < j \<and> j < n}" (is "?K = ?D \<union> ?O")
  proof (intro equalityI subsetI)
    fix k assume "k \<in> ?K"
    then obtain r c where k: "k = qubo_key r c" "r \<le> c" "c < n" by blast
    show "k \<in> ?D \<union> ?O"
    proof (cases "r = c")
      case True
      with k diag [of c] have "k = ''('' @ str_nat c @ '',)''" "c < n" by simp_all
      then show ?thesis by blast
    next
      case False
      with k off [of r c] have "k = ''('' @ str_nat r @ '','' @ str_nat c @ '')''" "r < c" "c < n"
        by simp_all
      then show ?thesis by blast
    qed
  next
    fix k assume "k \<in> ?D \<union> ?O"
    then consider i where "k = ''('' @ str_nat i @ '',)''" "i < n"
      | i j where "k = ''('' @ str_nat i @ '','' @ str_nat j @ '')''" "i < j" "j < n"
      by blast
    then show "k \<in> ?K"
    proof cases
      case 1
      then have "k = qubo_key i i" "i \<le> i" "i < n" by (simp_all add: diag)
      then show ?thesis by blast
    next
      case 2
      then have "k = qubo_key i j" "i \<le> j" "j < n" by (simp_all add: off)
      then show ?thesis by blast
    qed
  qed
  then have 1: "dom (final_qubo qubo_matrix n) = ?D \<union> ?O"
    by (simp only: dom_final_qubo)
  have 2: "\<forall>i. i < n \<longrightarrow>
      final_qubo qubo_matrix n (''('' @ str_nat i @ '',)'') = Some (qubo_matrix i i)"
  proof (intro allI impI)
    fix i :: nat assume "i < n"
    from final_qubo_upper [OF le_refl this, of qubo_matrix] diag [of i]
    show "final_qubo qubo_matrix n (''('' @ str_nat i @ '',)'') = Some (qubo_matrix i i)"
      by (simp only:)
  qed
  have 3: "\<forall>i j. i < j \<and> j < n \<longrightarrow>
      final_qubo qubo_matrix n (''('' @ str_nat i @ '','' @ str_nat j @ '')'')
        = Some (qubo_matrix i j)"
  proof (intro allI impI)
    fix i j :: nat assume "i < j \<and> j < n"
    then have "i \<le> j" "j < n" "i \<noteq> j" by simp_all
    from final_qubo_upper [OF this(1,2), of qubo_matrix] off [OF this(3)]
    show "final_qubo qubo_matrix n (''('' @ str_nat i @ '','' @ str_nat j @ '')'')
        = Some (qubo_matrix i j)" by (simp only:)
  qed
  have 4: "\<forall>i j. j < i \<longrightarrow>
      final_qubo qubo_matrix n (''('' @ str_nat i @ '','' @ str_nat j @ '')'') = None"
  proof (intro allI impI)
    fix i j :: nat assume "j < i"
    then have "i \<noteq> j" by simp
    from final_qubo_lower [OF \<open>j < i\<close>, of qubo_matrix n] off [OF this]
    show "final_qubo qubo_matrix n (''('' @ str_nat i @ '','' @ str_nat j @ '')'') = None"
      by (simp only:)
  qed
  have 5: "\<forall>r c. (r, c) \<in> set (triu_indices n) \<longleftrightarrow> r \<le> c \<and> c < n"
    by (simp add: triu_indices_set)
  have 6: "distinct (triu_indices n)" by (rule distinct_triu_indices)
  have 7: "distinct (map fst (qubo_items qubo_matrix n))" by (rule distinct_qubo_keys)
  show ?thesis
    using 1 2 3 4 5 6 7 by (intro conjI) (assumption+)
qed

theorem final_qubo_keys_witness:
  "final_qubo (\<lambda>r c. int (10 * r + c)) 3 ''(1,)'' = Some 11 \<and>
   final_qubo (\<lambda>r c. int (10 * r + c)) 3 ''(1,2)'' = Some 12 \<and>
   final_qubo (\<lambda>r c. int (10 * r + c)) 3 ''(2,1)'' = None \<and>
   map fst (qubo_items (\<lambda>r c. int (10 * r + c)) 3)
     = [''(0,)'', ''(0,1)'', ''(0,2)'', ''(1,)'', ''(1,2)'', ''(2,)'']"
proof -
  define Q where "Q = (\<lambda>r c. int (10 * r + c))"
  note t = final_qubo_keys [of 3 Q]
  have s: "str_nat 1 = ''1''" "str_nat 2 = ''2''" by code_simp+
  from t have diag: "\<forall>i. i < 3 \<longrightarrow> final_qubo Q 3 (''('' @ str_nat i @ '',)'') = Some (Q i i)"
    by (elim conjE)
  from t have upper: "\<forall>i j. i < j \<and> j < 3 \<longrightarrow>
      final_qubo Q 3 (''('' @ str_nat i @ '','' @ str_nat j @ '')'') = Some (Q i j)"
    by (elim conjE)
  from t have lower: "\<forall>i j. j < i \<longrightarrow>
      final_qubo Q 3 (''('' @ str_nat i @ '','' @ str_nat j @ '')'') = None"
    by (elim conjE)
  have "final_qubo Q 3 (''('' @ str_nat 1 @ '',)'') = Some (Q 1 1)"
    by (rule diag [rule_format]) simp
  then have a: "final_qubo Q 3 ''(1,)'' = Some 11" unfolding s by (simp add: Q_def)
  have "final_qubo Q 3 (''('' @ str_nat 1 @ '','' @ str_nat 2 @ '')'') = Some (Q 1 2)"
    by (rule upper [rule_format]) simp
  then have b: "final_qubo Q 3 ''(1,2)'' = Some 12" unfolding s by (simp add: Q_def)
  have "final_qubo Q 3 (''('' @ str_nat 2 @ '','' @ str_nat 1 @ '')'') = None"
    by (rule lower [rule_format]) simp
  then have c: "final_qubo Q 3 ''(2,1)'' = None" unfolding s by simp
  have d: "map fst (qubo_items Q 3) = [''(0,)'', ''(0,1)'', ''(0,2)'', ''(1,)'', ''(1,2)'', ''(2,)'']"
    unfolding Q_def by code_simp
  from a b c d show ?thesis unfolding Q_def by blast
qed

end
